theory Spec2Isabelle
  imports Main "HOL-Library.Sublist" "HOL-Library.Char_ord" "HOL-Library.List_Lexorder"
    "HOL-Library.Multiset"
begin

section \<open>JavaScript strings\<close>

text \<open>
  A JavaScript string is modelled as the list of its code units (\<^typ>\<open>string\<close>). The
  interface description and every identifier derived from it are ASCII text, so case
  conversion is the ASCII one and the default \<open>Array.prototype.sort\<close> order (by
  code unit) is the lexicographic order on \<^typ>\<open>string\<close>.
\<close>

definition LF :: char where
  "LF = CHR 0x0A"

definition CR :: char where
  "CR = CHR 0x0D"

definition TAB :: char where
  "TAB = CHR 0x09"

definition SQ :: char where
  "SQ = CHR 0x27"

definition DQ :: char where
  "DQ = CHR 0x22"

definition lowerChars :: string where
  "lowerChars = ''abcdefghijklmnopqrstuvwxyz''"

definition upperChars :: string where
  "upperChars = ''ABCDEFGHIJKLMNOPQRSTUVWXYZ''"

definition digitChars :: string where
  "digitChars = ''0123456789''"

definition toLowerChar :: "char \<Rightarrow> char" where
  "toLowerChar c = (case map_of (zip upperChars lowerChars) c of Some l \<Rightarrow> l | None \<Rightarrow> c)"

definition toUpperChar :: "char \<Rightarrow> char" where
  "toUpperChar c = (case map_of (zip lowerChars upperChars) c of Some u \<Rightarrow> u | None \<Rightarrow> c)"

definition toLowerCase :: "string \<Rightarrow> string" where
  "toLowerCase s = map toLowerChar s"

definition toUpperCase :: "string \<Rightarrow> string" where
  "toUpperCase s = map toUpperChar s"

text \<open>\<open>s.charAt(0).toUpperCase() + s.slice(1)\<close>\<close>

definition capitalize :: "string \<Rightarrow> string" where
  "capitalize s = (case s of [] \<Rightarrow> [] | c # cs \<Rightarrow> toUpperChar c # cs)"

text \<open>\<open>s.includes(sub)\<close>\<close>

fun includesStr :: "string \<Rightarrow> string \<Rightarrow> bool" where
  "includesStr [] sub = (sub = [])"
| "includesStr (c # cs) sub = (prefix sub (c # cs) \<or> includesStr cs sub)"

definition startsWith :: "string \<Rightarrow> string \<Rightarrow> bool" where
  "startsWith s p = prefix p s"

definition endsWith :: "string \<Rightarrow> string \<Rightarrow> bool" where
  "endsWith s p = suffix p s"

text \<open>
  White space, as \<open>\s\<close> and \<open>trim\<close> take it, among the code units below 256: the six
  ASCII characters and the no-break space.
\<close>

definition isSpace :: "char \<Rightarrow> bool" where
  "isSpace c = (c \<in> set [CHR '' '', TAB, LF, CHR 0x0B, CHR 0x0C, CR, CHR 0xA0])"

definition trim :: "string \<Rightarrow> string" where
  "trim s = rev (dropWhile isSpace (rev (dropWhile isSpace s)))"

text \<open>\<open>s.split(c)\<close> for a one-character separator: never the empty list.\<close>

fun splitOn :: "char \<Rightarrow> string \<Rightarrow> string list" where
  "splitOn c [] = [[]]"
| "splitOn c (x # xs) =
     (if x = c then [] # splitOn c xs
      else (case splitOn c xs of [] \<Rightarrow> [[x]] | h # t \<Rightarrow> (x # h) # t))"

section \<open>Regular expressions\<close>

text \<open>
  The generators find everything with regular expressions. The backtracking matcher of
  JavaScript is modelled for the constructs the sources use: character classes,
  greedy and lazy repetition of a class, an optional class, alternation, lookahead,
  capture groups, and the anchors \<open>^\<close>, \<open>$\<close> (without and with the \<open>m\<close> flag).
  A pattern is the list of its items, matched left to right; on failure the matcher
  backtracks in the order JavaScript does (greedy: longest first, lazy: shortest first,
  alternation: left first).
\<close>

datatype cls =
    Any
  | Dot
  | Ws
  | Digit
  | Word
  | Is char
  | IsCI char
  | OneOf string
  | NoneOf string
  | NotCls cls

fun in_cls :: "cls \<Rightarrow> char \<Rightarrow> bool" where
  "in_cls Any c = True"
| "in_cls Dot c = (c \<noteq> LF \<and> c \<noteq> CR)"
| "in_cls Ws c = isSpace c"
| "in_cls Digit c = (c \<in> set digitChars)"
| "in_cls Word c = (c \<in> set (lowerChars @ upperChars @ digitChars @ ''_''))"
| "in_cls (Is d) c = (c = d)"
| "in_cls (IsCI d) c = (toLowerChar c = toLowerChar d)"
| "in_cls (OneOf ds) c = (c \<in> set ds)"
| "in_cls (NoneOf ds) c = (c \<notin> set ds)"
| "in_cls (NotCls k) c = (\<not> in_cls k c)"

datatype rx =
    C cls
  | Star cls
  | StarL cls
  | Opt cls
  | Alt "rx list" "rx list"
  | Look "rx list"
  | Open
  | Close
  | Bos
  | Eos
  | Eol

text \<open>
  \<open>rmatch r s b os cs\<close> matches the pattern \<open>r\<close> against a prefix of \<open>s\<close>. \<open>b\<close> says
  that \<open>s\<close> starts at index 0 of the subject, \<open>os\<close> holds the inputs at which the open
  groups started and \<open>cs\<close> the captures closed so far. The result is the input left
  after the match and the captures, or \<open>None\<close>.
\<close>

function (sequential) rmatch ::
  "rx list \<Rightarrow> string \<Rightarrow> bool \<Rightarrow> string list \<Rightarrow> string list \<Rightarrow> (string \<times> string list) option"
where
  "rmatch [] s b os cs = Some (s, cs)"
| "rmatch (C k # r) [] b os cs = None"
| "rmatch (C k # r) (x # xs) b os cs = (if in_cls k x then rmatch r xs False os cs else None)"
| "rmatch (Star k # r) [] b os cs = rmatch r [] b os cs"
| "rmatch (Star k # r) (x # xs) b os cs =
     (if in_cls k x then
        (case rmatch (Star k # r) xs False os cs of
           Some res \<Rightarrow> Some res
         | None \<Rightarrow> rmatch r (x # xs) b os cs)
      else rmatch r (x # xs) b os cs)"
| "rmatch (StarL k # r) [] b os cs = rmatch r [] b os cs"
| "rmatch (StarL k # r) (x # xs) b os cs =
     (case rmatch r (x # xs) b os cs of
        Some res \<Rightarrow> Some res
      | None \<Rightarrow> if in_cls k x then rmatch (StarL k # r) xs False os cs else None)"
| "rmatch (Opt k # r) [] b os cs = rmatch r [] b os cs"
| "rmatch (Opt k # r) (x # xs) b os cs =
     (if in_cls k x then
        (case rmatch r xs False os cs of
           Some res \<Rightarrow> Some res
         | None \<Rightarrow> rmatch r (x # xs) b os cs)
      else rmatch r (x # xs) b os cs)"
| "rmatch (Alt p q # r) s b os cs =
     (case rmatch (p @ r) s b os cs of
        Some res \<Rightarrow> Some res
      | None \<Rightarrow> rmatch (q @ r) s b os cs)"
| "rmatch (Look p # r) s b os cs =
     (case rmatch p s b os cs of
        Some res \<Rightarrow> rmatch r s b os cs
      | None \<Rightarrow> None)"
| "rmatch (Open # r) s b os cs = rmatch r s b (s # os) cs"
| "rmatch (Close # r) s b [] cs = rmatch r s b [] cs"
| "rmatch (Close # r) s b (o1 # os) cs =
     rmatch r s b os (cs @ [take (length o1 - length s) o1])"
| "rmatch (Bos # r) s b os cs = (if b then rmatch r s b os cs else None)"
| "rmatch (Eos # r) [] b os cs = rmatch r [] b os cs"
| "rmatch (Eos # r) (x # xs) b os cs = None"
| "rmatch (Eol # r) [] b os cs = rmatch r [] b os cs"
| "rmatch (Eol # r) (x # xs) b os cs =
     (if x = LF \<or> x = CR then rmatch r (x # xs) b os cs else None)"
  by pat_completeness auto
termination
  by (relation "measures [\<lambda>(r, s, b, os, cs). size_list size r, \<lambda>(r, s, b, os, cs). length s]")
    auto

text \<open>A literal word, case-sensitive and case-insensitive (the \<open>i\<close> flag).\<close>

definition lit :: "string \<Rightarrow> rx list" where
  "lit w = map (\<lambda>c. C (Is c)) w"

definition litCI :: "string \<Rightarrow> rx list" where
  "litCI w = map (\<lambda>c. C (IsCI c)) w"

text \<open>\<open>k+\<close>, greedy.\<close>

definition rplus :: "cls \<Rightarrow> rx list" where
  "rplus k = [C k, Star k]"

definition quote :: cls where
  "quote = OneOf [SQ, DQ]"

definition notQuote :: cls where
  "notQuote = NoneOf [SQ, DQ]"

text \<open>
  \<open>rsearch r s b\<close> is the first match of \<open>r\<close> in \<open>s\<close>, trying every start index from the
  left: the text before the match, the text after it, and the captures.
\<close>

fun rsearch :: "rx list \<Rightarrow> string \<Rightarrow> bool \<Rightarrow> (string \<times> string \<times> string list) option" where
  "rsearch r [] b =
     (case rmatch r [] b [] [] of
        Some (rest, cs) \<Rightarrow> Some ([], rest, cs)
      | None \<Rightarrow> None)"
| "rsearch r (x # xs) b =
     (case rmatch r (x # xs) b [] [] of
        Some (rest, cs) \<Rightarrow> Some ([], rest, cs)
      | None \<Rightarrow>
          (case rsearch r xs False of
             Some (pre, rest, cs) \<Rightarrow> Some (x # pre, rest, cs)
           | None \<Rightarrow> None))"

text \<open>\<open>regex.test(s)\<close> and the captures of \<open>s.match(regex)\<close> (no \<open>g\<close> flag).\<close>

definition rtest :: "rx list \<Rightarrow> string \<Rightarrow> bool" where
  "rtest r s = (rsearch r s True \<noteq> None)"

definition rcaptures :: "rx list \<Rightarrow> string \<Rightarrow> string list option" where
  "rcaptures r s = (case rsearch r s True of Some (pre, rest, cs) \<Rightarrow> Some cs | None \<Rightarrow> None)"

text \<open>
  The loop \<open>while ((m = regex.exec(s)) !== null)\<close> of a \<open>g\<close> pattern: every match from
  left to right, each search starting where the last match ended. A match is given as
  (index, matched text, captures). No pattern of the sources matches the empty string,
  so every match moves on.
\<close>

function execAll :: "rx list \<Rightarrow> string \<Rightarrow> bool \<Rightarrow> nat \<Rightarrow> (nat \<times> string \<times> string list) list" where
  "execAll r s b i =
     (case rsearch r s b of
        None \<Rightarrow> []
      | Some (pre, rest, cs) \<Rightarrow>
          (i + length pre, take (length s - length pre - length rest) (drop (length pre) s), cs)
          # (if length rest < length s then execAll r rest False (i + (length s - length rest))
             else []))"
  by pat_completeness auto
termination
  by (relation "measure (\<lambda>(r, s, b, i). length s)") auto

text \<open>\<open>s.replace(regex, repl)\<close> with the \<open>g\<close> flag and a constant replacement.\<close>

function replaceAll :: "rx list \<Rightarrow> string \<Rightarrow> string \<Rightarrow> bool \<Rightarrow> string" where
  "replaceAll r repl s b =
     (case s of
        [] \<Rightarrow> []
      | x # xs \<Rightarrow>
          (case rmatch r s b [] [] of
             Some (rest, cs) \<Rightarrow>
               if length rest < length s then repl @ replaceAll r repl rest False
               else x # replaceAll r repl xs False
           | None \<Rightarrow> x # replaceAll r repl xs False))"
  by pat_completeness auto
termination
  by (relation "measure (\<lambda>(r, repl, s, b). length s)") auto

text \<open>\<open>s.replace(regex, repl)\<close> without the \<open>g\<close> flag: the first match only.\<close>

definition replaceFirst :: "rx list \<Rightarrow> string \<Rightarrow> string \<Rightarrow> string" where
  "replaceFirst r repl s =
     (case rsearch r s True of
        Some (pre, rest, cs) \<Rightarrow> pre @ repl @ rest
      | None \<Rightarrow> s)"

section \<open>Tag classifier (TagsGenerator)\<close>

text \<open>\<open>path.split('/').filter(Boolean)\<close>\<close>

definition segments :: "string \<Rightarrow> string list" where
  "segments path = filter (\<lambda>s. s \<noteq> []) (splitOn (CHR ''/'') path)"

text \<open>\<open>/^v\d+$/\<close>\<close>

definition versionRx :: "rx list" where
  "versionRx = [Bos, C (Is (CHR ''v''))] @ rplus Digit @ [Eos]"

text \<open>\<open>TagsGenerator.extractTagFromPath(path, schemaName)\<close>; \<open>null\<close> is \<open>None\<close>.\<close>

definition TagsGenerator_extractTagFromPath :: "string \<Rightarrow> string \<Rightarrow> string option" where
  "TagsGenerator_extractTagFromPath path schemaName =
     (case segments path of
        [] \<Rightarrow> Some ''root''
      | s0 # rest \<Rightarrow>
          if rtest versionRx s0 then
            (case rest of
               s1 # _ \<Rightarrow>
                 if schemaName = ''content'' \<and> s1 = ''tournament'' then None
                 else if s1 = ''internal'' then None
                 else Some (s0 @ ''_'' @ s1)
             | [] \<Rightarrow> Some s0)
          else if s0 = ''internal'' then None
          else if schemaName = ''content'' \<and> s0 = ''tournament'' then None
          else Some s0)"

record pathData =
  pd_path :: string
  pd_tag :: string
  pd_schema :: string

text \<open>\<open>/export interface paths\s*\{([\s\S]*?)\n\}/\<close> and \<open>/['"]([^'"]+)['"]:\s*\{/g\<close>\<close>

definition pathsRegex :: "rx list" where
  "pathsRegex =
     lit ''export interface paths'' @ [Star Ws] @ lit ''{'' @ [Open, StarL Any, Close, C (Is LF)]
     @ lit ''}''"

definition tagPathRegex :: "rx list" where
  "tagPathRegex =
     [C quote, Open] @ rplus notQuote @ [Close, C quote] @ lit '':'' @ [Star Ws] @ lit ''{''"

text \<open>
  The body of the loop over the matched paths: \<open>tags\<close> is a \<open>Set\<close> (kept in insertion
  order, without duplicates), \<open>pathsData\<close> an array.
\<close>

fun collectTags ::
  "string \<Rightarrow> string list \<Rightarrow> string list \<times> pathData list \<Rightarrow> string list \<times> pathData list"
where
  "collectTags schemaName [] acc = acc"
| "collectTags schemaName (path # paths) (tags, pathsData) =
     (case TagsGenerator_extractTagFromPath path schemaName of
        None \<Rightarrow> collectTags schemaName paths (tags, pathsData)
      | Some tag \<Rightarrow>
          collectTags schemaName paths
            (if tag \<in> set tags then tags else tags @ [tag],
             pathsData @ [\<lparr>pd_path = path, pd_tag = tag, pd_schema = schemaName\<rparr>]))"

text \<open>The paths the \<open>g\<close> pattern finds in the \<open>paths\<close> block, in order.\<close>

definition matchedPaths :: "string \<Rightarrow> string list" where
  "matchedPaths pathsContent =
     concat (map (\<lambda>(i, m, cs). take 1 cs) (execAll tagPathRegex pathsContent True 0))"

text \<open>
  \<open>TagsGenerator.extractTagsFromSchema\<close>: the tags, the paths data and whether the
  "paths not found" warning was logged.
\<close>

definition extractTagsFromSchema :: "string \<Rightarrow> string \<Rightarrow> string list \<times> pathData list \<times> bool" where
  "extractTagsFromSchema schemaContent schemaName =
     (case rcaptures pathsRegex schemaContent of
        None \<Rightarrow> ([], [], True)
      | Some cs \<Rightarrow>
          (case collectTags schemaName (matchedPaths (concat (take 1 cs))) ([], []) of
             (tags, pathsData) \<Rightarrow> (tags, pathsData, False)))"

text \<open>
  \<open>tagStats[tag] = (tagStats[tag] || 0) + 1\<close> on a plain object. A plain object inherits
  the members of \<open>Object.prototype\<close>; for a tag that is one of these names the
  expression adds 1 to a function or an object and the entry is not a number, which is
  \<open>None\<close> here.
\<close>

definition objectPrototypeKeys :: "string list" where
  "objectPrototypeKeys =
     [''constructor'', ''toString'', ''toLocaleString'', ''valueOf'', ''hasOwnProperty'',
      ''isPrototypeOf'', ''propertyIsEnumerable'', ''__proto__'', ''__defineGetter__'',
      ''__defineSetter__'', ''__lookupGetter__'', ''__lookupSetter__'']"

fun tagStats :: "pathData list \<Rightarrow> (string \<rightharpoonup> nat) \<Rightarrow> (string \<rightharpoonup> nat)" where
  "tagStats [] m = m"
| "tagStats (d # ds) m =
     tagStats ds
       (if pd_tag d \<in> set objectPrototypeKeys then m
        else m(pd_tag d \<mapsto> (case m (pd_tag d) of None \<Rightarrow> 1 | Some n \<Rightarrow> n + 1)))"

text \<open>
  \<open>TagsGenerator.generateTagFile\<close>: the entries of the emitted \<open>_TAGS\<close> array and of the
  emitted \<open>_TAG_STATS\<close> object, in the order they are printed.
\<close>

definition sortedTags :: "string list \<Rightarrow> string list" where
  "sortedTags tags = sort tags"

definition generateTagFile_TAGS :: "string list \<Rightarrow> pathData list \<Rightarrow> string list" where
  "generateTagFile_TAGS tags pathsData = sortedTags tags"

definition generateTagFile_TAG_STATS ::
  "string list \<Rightarrow> pathData list \<Rightarrow> (string \<times> nat option) list" where
  "generateTagFile_TAG_STATS tags pathsData =
     map (\<lambda>tag. (tag, tagStats pathsData Map.empty tag)) (sortedTags tags)"

text \<open>\<open>generate\<close>: the two tables emitted for a schema text.\<close>

definition emittedTags :: "string \<Rightarrow> string \<Rightarrow> string list" where
  "emittedTags schemaContent schemaName =
     (case extractTagsFromSchema schemaContent schemaName of
        (tags, pathsData, w) \<Rightarrow> generateTagFile_TAGS tags pathsData)"

definition emittedTagStats :: "string \<Rightarrow> string \<Rightarrow> (string \<times> nat option) list" where
  "emittedTagStats schemaContent schemaName =
     (case extractTagsFromSchema schemaContent schemaName of
        (tags, pathsData, w) \<Rightarrow> generateTagFile_TAG_STATS tags pathsData)"

section \<open>Naming conventions (NamingConventions)\<close>

text \<open>\<open>/^v\d+$/i\<close>\<close>

definition versionRxCI :: "rx list" where
  "versionRxCI = [Bos, C (IsCI (CHR ''v''))] @ rplus Digit @ [Eos]"

text \<open>\<open>NamingConventions.extractTagFromPath(path)\<close>\<close>

definition NamingConventions_extractTagFromPath :: "string \<Rightarrow> string" where
  "NamingConventions_extractTagFromPath path =
     (case segments path of
        [] \<Rightarrow> ''root''
      | s0 # rest \<Rightarrow>
          (case rest of
             s1 # _ \<Rightarrow> if rtest versionRxCI s0 then s0 @ ''_'' @ s1 else s0
           | [] \<Rightarrow> s0))"

section \<open>The tag classifier as the specification words it\<close>

text \<open>A segment that matches \<open>v\d+\<close>.\<close>

definition versioned :: "string \<Rightarrow> bool" where
  "versioned s =
     (case s of
        [] \<Rightarrow> False
      | c # ds \<Rightarrow> c = CHR ''v'' \<and> ds \<noteq> [] \<and> list_all (\<lambda>d. d \<in> set digitChars) ds)"

text \<open>
  The relevant segment of a path (segment 1 in the versioned case, segment 0 otherwise)
  and the name of its tag.
\<close>

definition relevantSegment :: "string list \<Rightarrow> string" where
  "relevantSegment segs =
     (case segs of
        [] \<Rightarrow> []
      | [s0] \<Rightarrow> s0
      | s0 # s1 # _ \<Rightarrow> if versioned s0 then s1 else s0)"

definition tagOfSegments :: "string list \<Rightarrow> string" where
  "tagOfSegments segs =
     (case segs of
        [] \<Rightarrow> ''root''
      | [s0] \<Rightarrow> s0
      | s0 # s1 # _ \<Rightarrow> if versioned s0 then s0 @ ''_'' @ s1 else s0)"

text \<open>
  The tag as the claim states it: \<open>root\<close> without segments, \<open>null\<close> when the relevant
  segment is \<open>internal\<close>, the tag name otherwise.
\<close>

definition claimed_tag :: "string \<Rightarrow> string option" where
  "claimed_tag path =
     (if segments path = [] then Some ''root''
      else if relevantSegment (segments path) = ''internal'' then None
      else Some (tagOfSegments (segments path)))"

text \<open>The non-null tags of a list of paths, and the number of paths of a tag.\<close>

definition nonNullTags :: "string \<Rightarrow> string list \<Rightarrow> string set" where
  "nonNullTags schemaName paths =
     {tag. \<exists>p \<in> set paths. TagsGenerator_extractTagFromPath p schemaName = Some tag}"

definition tagCount :: "string \<Rightarrow> string list \<Rightarrow> string \<Rightarrow> nat" where
  "tagCount schemaName paths tag =
     length (filter (\<lambda>p. TagsGenerator_extractTagFromPath p schemaName = Some tag) paths)"

section \<open>Naming conventions: identifiers\<close>

text \<open>The \<open>functionNaming\<close> table of the configuration; the constructor's default.\<close>

type_synonym functionNaming = "string \<rightharpoonup> string"

definition defaultFunctionNaming :: functionNaming where
  "defaultFunctionNaming =
     [''get'' \<mapsto> ''fetch'', ''post'' \<mapsto> ''create'', ''put'' \<mapsto> ''update'',
      ''patch'' \<mapsto> ''modify'', ''delete'' \<mapsto> ''remove'']"

text \<open>\<open>config?.codeGeneration?.functionNaming || { ... }\<close>\<close>

definition NamingConventions_functionNaming :: "functionNaming option \<Rightarrow> functionNaming" where
  "NamingConventions_functionNaming configured =
     (case configured of None \<Rightarrow> defaultFunctionNaming | Some t \<Rightarrow> t)"

text \<open>
  \<open>path.replace(/\{[^}]+\}/g, 'ID').replace(/[^\w]/g, '_').replace(/_+/g, '_')
  .replace(/^_|_$/g, '')\<close>
\<close>

definition cleanPath :: "string \<Rightarrow> string" where
  "cleanPath path =
     replaceAll [Alt [Bos, C (Is (CHR ''_''))] [C (Is (CHR ''_'')), Eos]] ''''
       (replaceAll (rplus (Is (CHR ''_''))) ''_''
         (replaceAll [C (NotCls Word)] ''_''
           (replaceAll (lit ''{'' @ rplus (NoneOf ''}'') @ lit ''}'') ''ID'' path True)
           True)
         True)
       True"

text \<open>\<open>parts.map((part, index) => index === 0 ? part : capitalized part).join('')\<close>\<close>

definition camelJoin :: "string list \<Rightarrow> string" where
  "camelJoin parts = (case parts of [] \<Rightarrow> [] | p # ps \<Rightarrow> p @ concat (map capitalize ps))"

text \<open>
  \<open>this.functionNaming[method.toLowerCase()] || method.toLowerCase()\<close>. The table is a
  plain object: a key it does not have itself is looked up in \<open>Object.prototype\<close>. The
  only members with a name in lower case are \<open>constructor\<close> (the function \<open>Object\<close>) and
  \<open>__proto__\<close> (the prototype object); in the template string of the function name they
  appear as the text below.
\<close>

definition inheritedMember :: "string \<Rightarrow> string option" where
  "inheritedMember key =
     (if key = ''constructor'' then Some ''function Object() { [native code] }''
      else if key = ''__proto__'' then Some ''[object Object]''
      else None)"

definition methodPrefix :: "functionNaming \<Rightarrow> string \<Rightarrow> string" where
  "methodPrefix naming method =
     (case naming (toLowerCase method) of
        None \<Rightarrow>
          (case inheritedMember (toLowerCase method) of
             None \<Rightarrow> toLowerCase method
           | Some member \<Rightarrow> member)
      | Some p \<Rightarrow> if p = [] then toLowerCase method else p)"

definition generateFunctionName :: "functionNaming \<Rightarrow> string \<Rightarrow> string \<Rightarrow> string" where
  "generateFunctionName naming path method =
     methodPrefix naming method
     @ capitalize (camelJoin (filter (\<lambda>s. s \<noteq> [])
         (splitOn (CHR ''_'') (toLowerCase (cleanPath path)))))"

definition generateConstantName :: "string \<Rightarrow> string \<Rightarrow> string" where
  "generateConstantName path method = toUpperCase method @ ''_'' @ toUpperCase (cleanPath path)"

section \<open>Hook classification (ReactQueryGenerator)\<close>

datatype hookType = Query | Mutation

text \<open>The classification in the loop of \<open>parseAPIFile\<close>.\<close>

definition classifyHook :: "string \<Rightarrow> hookType" where
  "classifyHook functionName =
     (if startsWith functionName ''create'' \<or> startsWith functionName ''modify''
         \<or> startsWith functionName ''remove'' \<or> startsWith functionName ''update''
         \<or> startsWith functionName ''delete''
      then Mutation else Query)"

record apiFunction =
  fn_name :: string
  fn_params :: string
  fn_hookType :: hookType
  fn_tag :: string
  fn_server :: string

text \<open>\<open>/export const (\w+) = async \((.*?)\) => \{([\s\S]*?)\n\};/g\<close>\<close>

definition functionRegex :: "rx list" where
  "functionRegex =
     lit ''export const '' @ [Open] @ rplus Word @ [Close] @ lit '' = async (''
     @ [Open, StarL Dot, Close] @ lit '') => {'' @ [Open, StarL Any, Close, C (Is LF)] @ lit ''};''"

definition parseAPIFile :: "string \<Rightarrow> string \<Rightarrow> string \<Rightarrow> apiFunction list" where
  "parseAPIFile content tag serverName =
     map (\<lambda>(i, m, cs).
            \<lparr>fn_name = concat (take 1 cs),
             fn_params = trim (concat (take 1 (drop 1 cs))),
             fn_hookType = classifyHook (concat (take 1 cs)),
             fn_tag = tag,
             fn_server = serverName\<rparr>)
       (execAll functionRegex content True 0)"

text \<open>
  The wrapper the domain API generator emits for an operation (\<open>generateMethodCode\<close>);
  the doc comment, the parameter list and the call options are computed elsewhere.
\<close>

definition wrapperCode ::
  "string \<Rightarrow> string \<Rightarrow> string \<Rightarrow> string \<Rightarrow> string \<Rightarrow> string \<Rightarrow> string \<Rightarrow> string" where
  "wrapperCode jsdocComment functionName parameterString responseType method path optionsString =
     [LF] @ jsdocComment @ [LF]
     @ ''export const '' @ functionName @ '' = async ('' @ parameterString @ '') => {'' @ [LF]
     @ ''  return handleAPIResponse''
     @ (if responseType = [] then [] else ''<'' @ responseType @ ''>'') @ ''('' @ [LF]
     @ ''    '' @ toUpperCase method @ ''('' @ [SQ] @ path @ [SQ] @ optionsString @ '')'' @ [LF]
     @ ''  );'' @ [LF]
     @ ''};''"

text \<open>The alternative prefix tables the configuration documents.\<close>

definition serviceStyle :: functionNaming where
  "serviceStyle =
     [''get'' \<mapsto> ''fetch'', ''post'' \<mapsto> ''add'', ''put'' \<mapsto> ''replace'',
      ''delete'' \<mapsto> ''remove'']"

section \<open>Orchestrator (Generator)\<close>

record step =
  st_name :: string
  st_description :: string
  st_required :: bool
  st_flagKey :: "string option"
  st_executor :: string

text \<open>
  \<open>defineSteps\<close>. The display names and descriptions of the source are Korean text; they
  are only printed, and are given here in English.
\<close>

definition defineSteps :: "step list" where
  "defineSteps =
     [\<lparr>st_name = ''OpenAPI types'', st_description = ''schema.d.ts'', st_required = True,
       st_flagKey = None, st_executor = ''generateTypes''\<rparr>,
      \<lparr>st_name = ''Swagger tags'', st_description = ''tags.ts'', st_required = True,
       st_flagKey = None, st_executor = ''generateTags''\<rparr>,
      \<lparr>st_name = ''validated types'', st_description = ''validated.ts'', st_required = False,
       st_flagKey = Some ''generateValidatedTypes'', st_executor = ''generateValidatedTypes''\<rparr>,
      \<lparr>st_name = ''deep schema'', st_description = ''deepSchema.ts'', st_required = False,
       st_flagKey = Some ''generateDeepSchema'', st_executor = ''generateDeepSchema''\<rparr>,
      \<lparr>st_name = ''endpoints'', st_description = ''endpoint.ts'', st_required = False,
       st_flagKey = Some ''generateEndpoints'', st_executor = ''generateEndpoints''\<rparr>,
      \<lparr>st_name = ''domain API'', st_description = ''{tag}API.ts'', st_required = False,
       st_flagKey = Some ''generateDomainAPI'', st_executor = ''generateDomainAPI''\<rparr>,
      \<lparr>st_name = ''React Query hooks'', st_description = ''useQueries.ts, useMutations.ts'',
       st_required = False, st_flagKey = Some ''generateReactQueryHooks'',
       st_executor = ''generateReactQueryHooks''\<rparr>]"

text \<open>
  A feature flag of the configuration: a boolean, an object with an \<open>enabled\<close> field, or
  another object (truthy).
\<close>

datatype flag = FBool bool | FEnabled bool | FObject

definition getEnabledSteps :: "(string \<rightharpoonup> flag) \<Rightarrow> step list \<Rightarrow> step list" where
  "getEnabledSteps featureFlags steps =
     filter (\<lambda>s.
        if st_required s then True
        else (case st_flagKey s of
                Some k \<Rightarrow>
                  (case featureFlags k of
                     Some (FEnabled e) \<Rightarrow> e
                   | Some (FBool v) \<Rightarrow> v
                   | Some FObject \<Rightarrow> True
                   | None \<Rightarrow> False)
              | None \<Rightarrow> True)) steps"

text \<open>What the loop of \<open>generateAll\<close> prints, and the summary after it.\<close>

datatype logEntry =
    StepHeader string
  | StepDone string
  | WarnNoGenerator string
  | ErrorStepFailed string string
  | ErrorAbort
  | SummarySuccess string
  | SummaryFailed string string

record runState =
  completedSteps :: nat
  success :: "string list"
  failed :: "(string \<times> string) list"
  ran :: "string list"
  logged :: "logEntry list"

definition initialRun :: runState where
  "initialRun = \<lparr>completedSteps = 0, success = [], failed = [], ran = [], logged = []\<rparr>"

text \<open>
  The loop over the enabled steps. \<open>generators e\<close> says that a generator is registered
  under the executor name \<open>e\<close>; \<open>executeStep s\<close> is the outcome of running the step:
  \<open>None\<close> when it returns, \<open>Some msg\<close> when it throws an error with that message.
  \<open>ran\<close> records the steps whose executor was called.
\<close>

fun runSteps ::
  "(string \<Rightarrow> bool) \<Rightarrow> (step \<Rightarrow> string option) \<Rightarrow> step list \<Rightarrow> runState \<Rightarrow> runState" where
  "runSteps generators executeStep [] st = st"
| "runSteps generators executeStep (s # rest) st =
     (if generators (st_executor s) then
        (case executeStep s of
           None \<Rightarrow>
             runSteps generators executeStep rest
               (st\<lparr>completedSteps := completedSteps st + 1,
                   success := success st @ [st_name s],
                   ran := ran st @ [st_name s],
                   logged := logged st @ [StepHeader (st_name s), StepDone (st_name s)]\<rparr>)
         | Some msg \<Rightarrow>
             (if st_required s then
                st\<lparr>failed := failed st @ [(st_name s, msg)],
                   ran := ran st @ [st_name s],
                   logged := logged st
                     @ [StepHeader (st_name s), ErrorStepFailed (st_name s) msg, ErrorAbort]\<rparr>
              else
                runSteps generators executeStep rest
                  (st\<lparr>failed := failed st @ [(st_name s, msg)],
                      ran := ran st @ [st_name s],
                      logged := logged st
                        @ [StepHeader (st_name s), ErrorStepFailed (st_name s) msg]\<rparr>)))
      else
        runSteps generators executeStep rest
          (st\<lparr>logged := logged st
                 @ [StepHeader (st_name s), WarnNoGenerator (st_executor s)]\<rparr>))"

text \<open>The summary printed after the loop.\<close>

definition summary :: "runState \<Rightarrow> logEntry list" where
  "summary st =
     map SummarySuccess (success st) @ map (\<lambda>(n, e). SummaryFailed n e) (failed st)"

text \<open>\<open>generateAll\<close>: the returned results, and everything printed.\<close>

definition generateAll ::
  "(string \<rightharpoonup> flag) \<Rightarrow> (string \<Rightarrow> bool) \<Rightarrow> (step \<Rightarrow> string option)
     \<Rightarrow> (string list \<times> (string \<times> string) list) \<times> logEntry list" where
  "generateAll featureFlags generators executeStep =
     (let st = runSteps generators executeStep (getEnabledSteps featureFlags defineSteps) initialRun
      in ((success st, failed st), logged st @ summary st))"

text \<open>A step aborts the run when it is required, has a generator and throws.\<close>

definition aborts :: "(string \<Rightarrow> bool) \<Rightarrow> (step \<Rightarrow> string option) \<Rightarrow> step \<Rightarrow> bool" where
  "aborts generators executeStep s =
     (generators (st_executor s) \<and> st_required s \<and> executeStep s \<noteq> None)"

text \<open>The steps the loop reaches: all up to and including the first that aborts.\<close>

fun reached :: "(string \<Rightarrow> bool) \<Rightarrow> (step \<Rightarrow> string option) \<Rightarrow> step list \<Rightarrow> step list" where
  "reached generators executeStep [] = []"
| "reached generators executeStep (s # rest) =
     (if aborts generators executeStep s then [s] else s # reached generators executeStep rest)"

text \<open>Two runs for illustration: every flag enabled; one executor throws.\<close>

definition allOn :: "string \<rightharpoonup> flag" where
  "allOn = (\<lambda>k. Some (FEnabled True))"

definition throwsAt :: "string \<Rightarrow> string \<Rightarrow> step \<Rightarrow> string option" where
  "throwsAt e msg s = (if st_executor s = e then Some msg else None)"

section \<open>Deep schema extractor (DeepSchemaTypeExtractor)\<close>

subsection \<open>Schema bodies by brace matching\<close>

definition BACKSLASH :: char where
  "BACKSLASH = CHR 0x5C"

definition BACKTICK :: char where
  "BACKTICK = CHR 0x60"

text \<open>\<open>s.substring(a, b)\<close>\<close>

definition substring :: "string \<Rightarrow> nat \<Rightarrow> nat \<Rightarrow> string" where
  "substring s a b = take (max a b - min a b) (drop (min a b) s)"

datatype commentMode = NoComment | LineComment | BlockComment

record scanState =
  braceCount :: int
  pos :: nat
  inString :: "char option"
  inComment :: commentMode
  escapeNext :: bool

text \<open>
  One round of the \<open>while\<close> loop of \<open>extractSchemasWithValidatedLogic\<close>, entered with
  \<open>pos < text.length\<close>, in its three parts: the string flags, the comment flags, the
  brace count. \<open>char\<close> is read once at the start of the round; \<open>nextIs c\<close> says that
  \<open>nextChar\<close> is \<open>c\<close> (\<open>nextChar\<close> is \<open>''\<close> at the last index, which equals no character).
\<close>

definition stringPart :: "char \<Rightarrow> scanState \<Rightarrow> scanState" where
  "stringPart char st =
     (if inComment st = NoComment then
        (if escapeNext st then st\<lparr>escapeNext := False\<rparr>
         else if char = BACKSLASH then st\<lparr>escapeNext := True\<rparr>
         else if char = DQ \<or> char = SQ \<or> char = BACKTICK then
           (case inString st of
              None \<Rightarrow> st\<lparr>inString := Some char\<rparr>
            | Some q \<Rightarrow> if q = char then st\<lparr>inString := None\<rparr> else st)
         else st)
      else st)"

definition commentPart :: "char \<Rightarrow> (char \<Rightarrow> bool) \<Rightarrow> scanState \<Rightarrow> scanState" where
  "commentPart char nextIs st =
     (if inString st = None then
        (if char = CHR ''/'' \<and> nextIs (CHR ''/'') then
           st\<lparr>inComment := LineComment, pos := pos st + 1\<rparr>
         else if char = CHR ''/'' \<and> nextIs (CHR ''*'') then
           st\<lparr>inComment := BlockComment, pos := pos st + 1\<rparr>
         else if inComment st = LineComment \<and> char = LF then
           st\<lparr>inComment := NoComment\<rparr>
         else if inComment st = BlockComment \<and> char = CHR ''*'' \<and> nextIs (CHR ''/'') then
           st\<lparr>inComment := NoComment, pos := pos st + 1\<rparr>
         else st)
      else st)"

definition bracePart :: "char \<Rightarrow> scanState \<Rightarrow> scanState" where
  "bracePart char st =
     (if inString st = None \<and> inComment st = NoComment then
        (if char = CHR ''{'' then st\<lparr>braceCount := braceCount st + 1\<rparr>
         else if char = CHR ''}'' then st\<lparr>braceCount := braceCount st - 1\<rparr>
         else st)
      else st)"

definition scanStep :: "string \<Rightarrow> scanState \<Rightarrow> scanState" where
  "scanStep text st =
     (let char = text ! pos st;
          nextIs = (\<lambda>c. pos st + 1 < length text \<and> text ! (pos st + 1) = c);
          st' = bracePart char (commentPart char nextIs (stringPart char st))
      in st'\<lparr>pos := pos st' + 1\<rparr>)"

lemma pos_stringPart: "pos (stringPart c st) = pos st"
  by (simp add: stringPart_def split: option.splits)

lemma pos_commentPart: "pos st \<le> pos (commentPart c n st)"
  by (simp add: commentPart_def)

lemma pos_bracePart: "pos (bracePart c st) = pos st"
  by (simp add: bracePart_def)

lemma pos_scanStep: "pos st < pos (scanStep text st)"
  using pos_commentPart[of "stringPart (text ! pos st) st"]
  by (simp add: scanStep_def Let_def pos_bracePart pos_stringPart less_Suc_eq_le)

function scanLoop :: "string \<Rightarrow> scanState \<Rightarrow> scanState" where
  "scanLoop text st =
     (if pos st < length text \<and> braceCount st > 0 then scanLoop text (scanStep text st) else st)"
  by pat_completeness auto
termination
proof (relation "measure (\<lambda>(text, st). length text - pos st)")
  show "wf (measure (\<lambda>(text, st). length text - pos st))" by simp
next
  fix src :: "char list" and st :: "scanState"
  assume "pos st < length src \<and> 0 < braceCount st"
  then show "((src, scanStep src st), src, st) \<in> measure (\<lambda>(text, st). length text - pos st)"
    using pos_scanStep[of st src] by auto
qed

text \<open>
  The scan from the opening brace at index \<open>start\<close>: the index just after the matching
  closing brace, or \<open>None\<close> when the text is exhausted first.
\<close>

definition matchClose :: "string \<Rightarrow> nat \<Rightarrow> nat option" where
  "matchClose text start =
     (let st = scanLoop text
                 \<lparr>braceCount = 1, pos = start + 1, inString = None, inComment = NoComment,
                  escapeNext = False\<rparr>
      in if braceCount st = 0 then Some (pos st) else None)"

text \<open>\<open>Map.prototype.set\<close> on a map kept as a list of entries in insertion order.\<close>

fun mapSet :: "'k \<Rightarrow> 'v \<Rightarrow> ('k \<times> 'v) list \<Rightarrow> ('k \<times> 'v) list" where
  "mapSet k v [] = [(k, v)]"
| "mapSet k v (e # es) = (if fst e = k then (k, v) # es else e # mapSet k v es)"

datatype schemaLog = SchemaOk string nat | SchemaBraceMismatch string

text \<open>\<open>/(\w+):\s*\{/g\<close>\<close>

definition schemaStartRegex :: "rx list" where
  "schemaStartRegex = [Open] @ rplus Word @ [Close] @ lit '':'' @ [Star Ws] @ lit ''{''"

text \<open>The loop over the start positions: (name, index of the opening brace).\<close>

fun extractEach ::
  "string \<Rightarrow> (string \<times> nat) list \<Rightarrow> (string \<times> string) list \<times> schemaLog list
     \<Rightarrow> (string \<times> string) list \<times> schemaLog list" where
  "extractEach block [] acc = acc"
| "extractEach block ((schemaName, start) # others) (allSchemas, logs) =
     (case matchClose block start of
        Some p \<Rightarrow>
          extractEach block others
            (mapSet schemaName (trim (substring block (start + 1) (p - 1))) allSchemas,
             logs @ [SchemaOk schemaName (length (trim (substring block (start + 1) (p - 1))))])
      | None \<Rightarrow> extractEach block others (allSchemas, logs @ [SchemaBraceMismatch schemaName]))"

definition startPositions :: "string \<Rightarrow> (string \<times> nat) list" where
  "startPositions block =
     map (\<lambda>(i, m, cs). (concat (take 1 cs), i + length m - 1)) (execAll schemaStartRegex block True 0)"

definition extractSchemasWithValidatedLogic ::
  "string \<Rightarrow> (string \<times> string) list \<Rightarrow> (string \<times> string) list \<times> schemaLog list" where
  "extractSchemasWithValidatedLogic componentsSchemasBlock allSchemas =
     extractEach componentsSchemasBlock (startPositions componentsSchemasBlock) (allSchemas, [])"

subsection \<open>Properties of a schema body\<close>

text \<open>The text of the first match of a pattern (\<open>match[0]\<close>).\<close>

definition rmatchText :: "rx list \<Rightarrow> string \<Rightarrow> string option" where
  "rmatchText r s =
     (case rsearch r s True of
        Some (pre, rest, cs) \<Rightarrow> Some (take (length s - length pre - length rest) (drop (length pre) s))
      | None \<Rightarrow> None)"

text \<open>\<open>s.match(regex)\<close> with the \<open>g\<close> flag: the matched texts, \<open>null\<close> when there is none.\<close>

definition matchAllTexts :: "rx list \<Rightarrow> string \<Rightarrow> string list option" where
  "matchAllTexts r s =
     (case execAll r s True 0 of
        [] \<Rightarrow> None
      | ms \<Rightarrow> Some (map (\<lambda>(i, m, cs). m) ms))"

text \<open>\<open>removeCommentsFromSchema\<close>\<close>

definition removeCommentsFromSchema :: "string \<Rightarrow> string" where
  "removeCommentsFromSchema schemaContent =
     trim
       (replaceAll (rplus Ws) '' ''
          (replaceAll (lit ''//'' @ [Star Dot, Eol]) ''''
             (replaceAll (lit ''/**'' @ [StarL Any] @ lit ''*/'') ''''
                (replaceAll (lit ''/*'' @ [StarL Any] @ lit ''*/'') '''' schemaContent True)
                True)
             True)
          True)"

text \<open>
  The test the extractor makes in three places: the type text has a \<open>|\<close>, has neither
  \<open>null\<close> nor \<open>undefined\<close> in it, and \<open>/'[^']*'/g\<close> finds more than one string literal.
\<close>

definition stringLiterals :: "string \<Rightarrow> string list option" where
  "stringLiterals typeDefinition =
     matchAllTexts ([C (Is SQ), Star (NoneOf [SQ]), C (Is SQ)]) typeDefinition"

definition isEnumUnion :: "string \<Rightarrow> bool" where
  "isEnumUnion typeDefinition =
     (includesStr typeDefinition ''|'' \<and> \<not> includesStr typeDefinition ''null''
      \<and> \<not> includesStr typeDefinition ''undefined''
      \<and> (case stringLiterals typeDefinition of None \<Rightarrow> False | Some ls \<Rightarrow> length ls > 1))"

text \<open>\<open>isPropertyWorthExtracting\<close>\<close>

definition skipPatterns :: "rx list list" where
  "skipPatterns =
     [[Bos] @ litCI ''id'' @ [Eos],
      [Bos, Star Dot] @ lit ''Id'' @ [Eos],
      [Bos, Star Dot] @ litCI ''Url'' @ [Eos],
      [Bos, Star Dot] @ litCI ''Count'' @ [Eos],
      [Bos] @ litCI ''description'' @ [Eos],
      [Bos] @ litCI ''content'' @ [Eos],
      [Bos] @ litCI ''message'' @ [Eos],
      [Bos] @ litCI ''code'' @ [Eos],
      [Bos] @ litCI ''data'' @ [Eos],
      [Bos] @ litCI ''format'' @ [Eos],
      [Bos] @ litCI ''https'' @ [Eos]]"

definition includePatterns :: "rx list list" where
  "includePatterns =
     [litCI ''Type'' @ [Eos], litCI ''Status'' @ [Eos], litCI ''State'' @ [Eos],
      litCI ''Mode'' @ [Eos]]"

definition isPropertyWorthExtracting :: "string \<Rightarrow> string \<Rightarrow> bool" where
  "isPropertyWorthExtracting propertyName typeDefinition =
     (if list_ex (\<lambda>pattern. rtest pattern propertyName) skipPatterns then
        (if isEnumUnion typeDefinition then True else False)
      else if list_ex (\<lambda>pattern. rtest pattern propertyName) includePatterns then True
      else if isEnumUnion typeDefinition then True
      else True)"

text \<open>\<open>getPropertyPriority\<close>\<close>

definition getPropertyPriority :: "string \<Rightarrow> string \<Rightarrow> nat" where
  "getPropertyPriority propertyName typeDefinition =
     (if isEnumUnion typeDefinition then 100 else 0)
     + (if rtest (litCI ''Type'' @ [Eos]) propertyName then 50 else 0)
     + (if rtest (litCI ''Status'' @ [Eos]) propertyName then 50 else 0)
     + (if rtest (litCI ''State'' @ [Eos]) propertyName then 40 else 0)
     + (if rtest (litCI ''Mode'' @ [Eos]) propertyName then 30 else 0)
     + (if includesStr typeDefinition ''components['schemas']'' then 20 else 0)"

record propertyInfo =
  pi_name :: string
  pi_originalType :: string
  pi_isEnum :: bool
  pi_isArray :: bool
  pi_isOptional :: bool
  pi_isNested :: bool
  pi_enumValues :: "string list"
  pi_nestedSchemaName :: "string option"
  pi_description :: "string option"
  pi_priority :: nat

text \<open>\<open>/(\w+)\??\s*:\s*([^;]+);/g\<close>\<close>

definition propertyRegex :: "rx list" where
  "propertyRegex =
     [Open] @ rplus Word @ [Close, Opt (Is (CHR ''?'')), Star Ws] @ lit '':'' @ [Star Ws, Open]
     @ rplus (NoneOf '';'') @ [Close] @ lit '';''"

text \<open>\<open>/components\['schemas'\]\['(\w+)'\]/\<close>\<close>

definition componentRegex :: "rx list" where
  "componentRegex = lit ''components['schemas']['' @ [C (Is SQ), Open] @ rplus Word @ [Close, C (Is SQ)] @ lit '']''"

text \<open>
  The description of a property: the doc comment before it, found in the schema
  definition with a pattern built from the property name, and its \<open>@description\<close> line.
\<close>

definition propertyDescription :: "string \<Rightarrow> string \<Rightarrow> string option" where
  "propertyDescription schemaDefinition propertyName =
     (case rmatchText
             (lit ''/**'' @ [StarL Any] @ lit ''*/'' @ [Star Ws] @ lit propertyName
              @ [Opt (Is (CHR ''?''))] @ lit '':'')
             schemaDefinition of
        None \<Rightarrow> None
      | Some commentBlock \<Rightarrow>
          (case rcaptures (lit ''@description'' @ rplus Ws @ [Open, Star (NoneOf [LF, CHR ''@'']), Close])
                  commentBlock of
             None \<Rightarrow> None
           | Some cs \<Rightarrow> Some (trim (concat (take 1 cs)))))"

text \<open>The record built for a property that passed the filter.\<close>

definition propertyInfoOf :: "string \<Rightarrow> string \<Rightarrow> string \<Rightarrow> string \<Rightarrow> propertyInfo" where
  "propertyInfoOf schemaDefinition fullMatch propertyName cleanType =
     \<lparr>pi_name = propertyName,
      pi_originalType = cleanType,
      pi_isEnum = isEnumUnion cleanType,
      pi_isArray = (includesStr cleanType ''[]'' \<or> includesStr cleanType ''Array<''),
      pi_isOptional = (includesStr fullMatch ''?:'' \<or> includesStr cleanType ''undefined''),
      pi_isNested = (rcaptures componentRegex cleanType \<noteq> None),
      pi_enumValues =
        (if isEnumUnion cleanType then
           (case stringLiterals cleanType of
              None \<Rightarrow> []
            | Some ls \<Rightarrow> map (filter (\<lambda>c. c \<noteq> SQ)) ls)
         else []),
      pi_nestedSchemaName =
        (case rcaptures componentRegex cleanType of
           None \<Rightarrow> None
         | Some cs \<Rightarrow> Some (concat (take 1 cs))),
      pi_description = propertyDescription schemaDefinition propertyName,
      pi_priority = getPropertyPriority propertyName cleanType\<rparr>"

text \<open>
  The matches of the property pattern in the cleaned schema:
  (matched text, property name, trimmed type text).
\<close>

definition propertyMatches :: "string \<Rightarrow> (string \<times> string \<times> string) list" where
  "propertyMatches schemaDefinition =
     map (\<lambda>(i, m, cs). (m, concat (take 1 cs), trim (concat (take 1 (drop 1 cs)))))
       (execAll propertyRegex (removeCommentsFromSchema schemaDefinition) True 0)"

text \<open>\<open>Set.prototype.add\<close> on a set kept as a list in insertion order.\<close>

definition setAdd :: "'a \<Rightarrow> 'a list \<Rightarrow> 'a list" where
  "setAdd x xs = (if x \<in> set xs then xs else xs @ [x])"

text \<open>
  \<open>extractAllProperties\<close>: the properties kept, sorted by descending priority (the sort
  is stable), and the set of nested schema names.
\<close>

definition extractAllProperties :: "string \<Rightarrow> string \<Rightarrow> propertyInfo list \<times> string list" where
  "extractAllProperties schemaDefinition schemaName =
     (let kept = filter (\<lambda>(m, n, ty). isPropertyWorthExtracting n ty)
                   (propertyMatches schemaDefinition);
          properties = map (\<lambda>(m, n, ty). propertyInfoOf schemaDefinition m n ty) kept;
          nestedSchemas =
            fold (\<lambda>p acc. case pi_nestedSchemaName p of None \<Rightarrow> acc | Some n \<Rightarrow> setAdd n acc)
              properties []
      in (sort_key (\<lambda>p. - int (pi_priority p)) properties, nestedSchemas))"

subsection \<open>Nested schemas\<close>

record nestedType =
  nt_schemaName :: string
  nt_properties :: "propertyInfo list"
  nt_depth :: nat

record walkState =
  processedTypes :: "string list"
  depthWarnings :: nat

definition maxDepth :: nat where
  "maxDepth = 5"

text \<open>
  \<open>processNestedSchemas(nestedSchemas, depth)\<close> and the loop over \<open>nestedSchemas\<close> in it.
  \<open>allSchemas\<close> is the map of the schema bodies; the visited set \<open>processedTypes\<close> is
  state of the extractor and is threaded through.
\<close>

function processNestedSchemas ::
    "(string \<times> string) list \<Rightarrow> string list \<Rightarrow> nat \<Rightarrow> walkState \<Rightarrow> nestedType list \<times> walkState"
  and walkLoop ::
    "(string \<times> string) list \<Rightarrow> string list \<Rightarrow> nat \<Rightarrow> walkState \<Rightarrow> nestedType list \<times> walkState"
where
  "processNestedSchemas allSchemas nestedSchemas depth st =
     (if depth > maxDepth then ([], st\<lparr>depthWarnings := depthWarnings st + 1\<rparr>)
      else walkLoop allSchemas nestedSchemas depth st)"
| "walkLoop allSchemas [] depth st = ([], st)"
| "walkLoop allSchemas (schemaName # others) depth st =
     (if schemaName \<in> set (processedTypes st) then walkLoop allSchemas others depth st
      else
        (let st1 = st\<lparr>processedTypes := processedTypes st @ [schemaName]\<rparr> in
         case map_of allSchemas schemaName of
           None \<Rightarrow> walkLoop allSchemas others depth st1
         | Some schemaBody \<Rightarrow>
             (case extractAllProperties schemaBody schemaName of
                (properties, furtherNested) \<Rightarrow>
                  (case (if furtherNested \<noteq> []
                         then processNestedSchemas allSchemas furtherNested (depth + 1) st1
                         else ([], st1)) of
                     (deeperTypes, st2) \<Rightarrow>
                       (case walkLoop allSchemas others depth st2 of
                          (restTypes, st3) \<Rightarrow>
                            (\<lparr>nt_schemaName = schemaName, nt_properties = properties,
                              nt_depth = depth\<rparr> # deeperTypes @ restTypes, st3))))))"
  by pat_completeness auto
termination
  by (relation "measures
        [\<lambda>x. case x of
                Inl (a, ns, d, st) \<Rightarrow> if d > maxDepth then 0 else 2 * (maxDepth + 1 - d) + 2
              | Inr (a, ns, d, st) \<Rightarrow> 2 * (maxDepth + 1 - d) + 1,
         \<lambda>x. case x of Inl (a, ns, d, st) \<Rightarrow> 0 | Inr (a, ns, d, st) \<Rightarrow> length ns]")
    (auto simp: maxDepth_def)


text \<open>
  What a walk guarantees about its result: the visited set only grows, no schema is
  reported twice, and every schema reported was not visited before, is visited after,
  and has a depth between the depth of the call and the cap.
\<close>

definition walkResult :: "nat \<Rightarrow> walkState \<Rightarrow> nestedType list \<times> walkState \<Rightarrow> bool" where
  "walkResult depth st r =
     (set (processedTypes st) \<subseteq> set (processedTypes (snd r))
      \<and> distinct (map nt_schemaName (fst r))
      \<and> list_all (\<lambda>t. nt_schemaName t \<notin> set (processedTypes st)
                       \<and> nt_schemaName t \<in> set (processedTypes (snd r))
                       \<and> depth \<le> nt_depth t \<and> nt_depth t \<le> maxDepth) (fst r))"

text \<open>A cyclic schema graph: \<open>A\<close> refers to \<open>B\<close> and \<open>B\<close> to \<open>A\<close>.\<close>

definition cyclicSchemas :: "(string \<times> string) list" where
  "cyclicSchemas =
     [(''A'', ''b: components['schemas']['B'];''),
      (''B'', ''a: components['schemas']['A']; kind: 'x' | 'y';'')]"

definition freshWalk :: walkState where
  "freshWalk = \<lparr>processedTypes = [], depthWarnings = 0\<rparr>"

subsection \<open>The relevance filter as the specification words it\<close>

text \<open>
  The names the claim says are skipped: bare \<open>id\<close>, a name ending in \<open>Id\<close>, \<open>Url\<close> or
  \<open>Count\<close>, or one of six fixed names.
\<close>

definition claimed_skippedName :: "string \<Rightarrow> bool" where
  "claimed_skippedName p =
     (p = ''id'' \<or> endsWith p ''Id'' \<or> endsWith p ''Url'' \<or> endsWith p ''Count''
      \<or> p \<in> set [''description'', ''content'', ''message'', ''code'', ''data'', ''format''])"

text \<open>
  The names the filter skips: one of eight fixed names in any letter case, a name ending
  in \<open>Id\<close>, or a name ending in \<open>url\<close> or \<open>count\<close> in any letter case.
\<close>

definition skippedName :: "string \<Rightarrow> bool" where
  "skippedName p =
     (toLowerCase p \<in> set [''id'', ''description'', ''content'', ''message'', ''code'', ''data'',
                             ''format'', ''https'']
      \<or> endsWith p ''Id'' \<or> endsWith (toLowerCase p) ''url'' \<or> endsWith (toLowerCase p) ''count'')"

text \<open>The (name, type) pairs of a schema body that pass the filter, in source order.\<close>

definition keptNames :: "string \<Rightarrow> string list" where
  "keptNames schemaDefinition =
     map (\<lambda>(m, n, ty). n)
       (filter (\<lambda>(m, n, ty). isPropertyWorthExtracting n ty) (propertyMatches schemaDefinition))"

subsection \<open>Names of property types\<close>

text \<open>\<open>s.replace(regex, f)\<close> with the \<open>g\<close> flag, the replacement computed from the captures.\<close>

function replaceAllBy :: "rx list \<Rightarrow> (string list \<Rightarrow> string) \<Rightarrow> string \<Rightarrow> bool \<Rightarrow> string" where
  "replaceAllBy r f [] b = []"
| "replaceAllBy r f (x # xs) b =
     (case rmatch r (x # xs) b [] [] of
        Some (rest, cs) \<Rightarrow>
          if length rest < length (x # xs) then f cs @ replaceAllBy r f rest False
          else x # replaceAllBy r f xs False
      | None \<Rightarrow> x # replaceAllBy r f xs False)"
  by pat_completeness auto
termination
  by (relation "measure (\<lambda>(r, f, s, b). length s)") auto

text \<open>
  \<open>s.split(regex)\<close>: the loop of the language definition. \<open>cur\<close> is the text since the
  last split point, so the match end equals the split point exactly when the match is
  empty and \<open>cur\<close> is empty.
\<close>

function splitLoop :: "rx list \<Rightarrow> string \<Rightarrow> string \<Rightarrow> bool \<Rightarrow> string list" where
  "splitLoop r [] cur b = [cur]"
| "splitLoop r (x # xs) cur b =
     (case rmatch r (x # xs) b [] [] of
        None \<Rightarrow> splitLoop r xs (cur @ [x]) False
      | Some (rest, cs) \<Rightarrow>
          if rest = x # xs \<and> cur = [] then splitLoop r xs (cur @ [x]) False
          else if length rest < length (x # xs) then cur # splitLoop r rest [] False
          else cur # splitLoop r xs [x] False)"
  by pat_completeness auto
termination
  by (relation "measure (\<lambda>(r, s, cur, b). length s)") auto

definition jsSplit :: "rx list \<Rightarrow> string \<Rightarrow> string list" where
  "jsSplit r s =
     (if s = [] then (if rmatch r [] True [] [] \<noteq> None then [] else [[]])
      else splitLoop r s [] True)"

text \<open>
  \<open>toPascalCase\<close>:
  \<open>str.replace(/([a-z])([A-Z])/g, '$1$2').split(/(?=[A-Z])/).map(capitalize).join('')\<close>
\<close>

definition toPascalCase :: "string \<Rightarrow> string" where
  "toPascalCase str =
     concat (map capitalize
       (jsSplit [Look [C (OneOf upperChars)]]
          (replaceAllBy [Open, C (OneOf lowerChars), Close, Open, C (OneOf upperChars), Close]
             concat str True)))"

text \<open>\<open>generatePropertyTypeName\<close>\<close>

definition generatePropertyTypeName :: "string \<Rightarrow> string" where
  "generatePropertyTypeName propertyName =
     (if rtest [Bos, C (OneOf upperChars)] propertyName then propertyName
      else
        (let typeName = toPascalCase propertyName in
         if rtest ([Bos] @ rplus Digit @ [Eos]) propertyName then ''AccountInfo''
         else if startsWith propertyName ''is'' \<or> startsWith propertyName ''has''
                 \<or> startsWith propertyName ''allow'' \<or> startsWith propertyName ''hide''
           then typeName
         else if includesStr (toLowerCase propertyName) ''url''
           then replaceFirst (lit ''Url'' @ [Eos]) ''URL'' typeName
         else if includesStr (toLowerCase propertyName) ''id''
           then replaceFirst (lit ''Id'' @ [Eos]) ''ID'' typeName
         else if includesStr (toLowerCase propertyName) ''count'' then typeName
         else if endsWith propertyName ''At'' then typeName
         else typeName))"

text \<open>\<open>generateUniqueTypeName\<close>\<close>

definition generateUniqueTypeName :: "string \<Rightarrow> string \<Rightarrow> string" where
  "generateUniqueTypeName schemaName propertyName =
     ''Props_'' @ schemaName @ ''_'' @ generatePropertyTypeName propertyName"

subsection \<open>The name transformation as the specification words it\<close>

definition numericName :: "string \<Rightarrow> bool" where
  "numericName p = (p \<noteq> [] \<and> list_all (\<lambda>c. c \<in> set digitChars) p)"

definition booleanPrefixed :: "string \<Rightarrow> bool" where
  "booleanPrefixed p =
     (startsWith p ''is'' \<or> startsWith p ''has'' \<or> startsWith p ''allow'' \<or> startsWith p ''hide'')"

text \<open>A trailing \<open>w\<close> replaced by \<open>v\<close>.\<close>

definition replaceTrailing :: "string \<Rightarrow> string \<Rightarrow> string \<Rightarrow> string" where
  "replaceTrailing w v s = (if endsWith s w then take (length s - length w) s @ v else s)"

text \<open>
  The transformation as the claim states it: PascalCase, then \<open>Url\<close> to \<open>URL\<close> and \<open>Id\<close>
  to \<open>ID\<close> at the end, boolean-prefixed names as they are, numeric names to the fallback.
\<close>

definition claimed_T :: "string \<Rightarrow> string" where
  "claimed_T p =
     (if numericName p then ''AccountInfo''
      else if booleanPrefixed p then capitalize p
      else replaceTrailing ''Id'' ''ID'' (replaceTrailing ''Url'' ''URL'' (capitalize p)))"

text \<open>
  The transformation the extractor computes: a name that starts with a capital letter is
  kept as it is; the \<open>Url\<close> rule applies to names with \<open>url\<close> in them (in any letter
  case) and then the \<open>Id\<close> rule is not tried.
\<close>

definition amended_T :: "string \<Rightarrow> string" where
  "amended_T p =
     (if p \<noteq> [] \<and> hd p \<in> set upperChars then p
      else if numericName p then ''AccountInfo''
      else if booleanPrefixed p then capitalize p
      else if includesStr (toLowerCase p) ''url'' then replaceTrailing ''Url'' ''URL'' (capitalize p)
      else replaceTrailing ''Id'' ''ID'' (capitalize p))"

subsection \<open>The cleaned path in words\<close>

text \<open>
  The four steps of the cleaning, written without patterns: every placeholder (an
  opening brace, one or more characters other than a closing brace, a closing brace)
  becomes \<open>ID\<close>; every character that is no letter, digit or \<open>_\<close> becomes \<open>_\<close>; a run
  of \<open>_\<close> becomes one \<open>_\<close>; a \<open>_\<close> at the start and a \<open>_\<close> at the end are dropped.
\<close>

function placeholders :: "string \<Rightarrow> string" where
  "placeholders [] = []"
| "placeholders (c # s) =
     (if c = CHR ''{'' \<and> takeWhile (\<lambda>x. x \<noteq> CHR ''}'') s \<noteq> []
         \<and> dropWhile (\<lambda>x. x \<noteq> CHR ''}'') s \<noteq> []
      then ''ID'' @ placeholders (tl (dropWhile (\<lambda>x. x \<noteq> CHR ''}'') s))
      else c # placeholders s)"
  by pat_completeness auto
termination
proof (relation "measure length")
  fix c :: char and s :: string
  have "length (tl (dropWhile (\<lambda>x. x \<noteq> CHR ''}'') s)) \<le> length s"
    using length_dropWhile_le[of "\<lambda>x. x \<noteq> CHR ''}''" s] by simp
  then show "(tl (dropWhile (\<lambda>x. x \<noteq> CHR ''}'') s), c # s) \<in> measure length" by simp
qed simp_all

definition isWordChar :: "char \<Rightarrow> bool" where
  "isWordChar c = (c \<in> set (lowerChars @ upperChars @ digitChars @ ''_''))"

definition underscored :: "string \<Rightarrow> string" where
  "underscored s = map (\<lambda>c. if isWordChar c then c else CHR ''_'') s"

fun collapse :: "string \<Rightarrow> string" where
  "collapse (a # b # s) =
     (if a = CHR ''_'' \<and> b = CHR ''_'' then collapse (b # s) else a # collapse (b # s))"
| "collapse s = s"

definition stripEnds :: "string \<Rightarrow> string" where
  "stripEnds s =
     (let t = (if s \<noteq> [] \<and> hd s = CHR ''_'' then tl s else s)
      in if t \<noteq> [] \<and> last t = CHR ''_'' then butlast t else t)"

definition normalForm :: "string \<Rightarrow> string" where
  "normalForm path = stripEnds (collapse (underscored (placeholders path)))"

text \<open>The words of a cleaned path (its parts between \<open>_\<close>, in lower case), each capitalised.\<close>

definition pascalWords :: "string \<Rightarrow> string" where
  "pascalWords n =
     concat (map capitalize (filter (\<lambda>w. w \<noteq> []) (splitOn (CHR ''_'') (toLowerCase n))))"

text \<open>The HTTP methods of an operation, as the generators pass them.\<close>

definition httpMethods :: "string list" where
  "httpMethods = [''get'', ''post'', ''put'', ''patch'', ''delete'']"

section \<open>Validated types (TypeGenerator)\<close>

text \<open>
  Step 7 of the loop body of \<open>TypeGenerator.processSchema\<close>: the \<open>_Response\<close> and \<open>_RO\<close>
  aliases of one operation, from the text of the operation (\<open>operationDetails\<close>) and the
  text of the component schemas (\<open>componentsSchemasBlock\<close>).

  The pieces the patterns share: \<open>responses:\s*\{[\s\S]*?\<close>, the status \<open>20\d\<close>,
  \<open>:\s*\{[\s\S]*?\<close>, \<open>['"]application\/json['"]:\s*\<close>,
  \<open>components\[['"]schemas['"]\]\[['"]\<close> and \<open>['"]\]\<close>.
\<close>

definition responsesOpen :: "rx list" where
  "responsesOpen = lit ''responses:'' @ [Star Ws] @ lit ''{'' @ [StarL Any]"

definition status20x :: "rx list" where
  "status20x = lit ''20'' @ [C Digit]"

definition statusOpen :: "rx list" where
  "statusOpen = lit '':'' @ [Star Ws] @ lit ''{'' @ [StarL Any]"

definition jsonKey :: "rx list" where
  "jsonKey = [C quote] @ lit ''application/json'' @ [C quote] @ lit '':'' @ [Star Ws]"

definition schemaRefOpen :: "rx list" where
  "schemaRefOpen = lit ''components['' @ [C quote] @ lit ''schemas'' @ [C quote] @ lit '']['' @ [C quote]"

definition schemaRefClose :: "rx list" where
  "schemaRefClose = [C quote] @ lit '']''"

text \<open>
  \<open>/responses:\s*\{[\s\S]*?(?:20\d|default):\s*\{[\s\S]*?['"]application\/json['"]:\s*components\[['"]schemas['"]\]\[['"]([^'"]+Response)['"]\]/\<close>
\<close>

definition responseSchemaRegex :: "rx list" where
  "responseSchemaRegex =
     responsesOpen @ [Alt status20x (lit ''default'')] @ statusOpen @ jsonKey @ schemaRefOpen
     @ [Open] @ rplus notQuote @ lit ''Response'' @ [Close] @ schemaRefClose"

text \<open>
  \<open>new RegExp(`${escaped responseSchemaName}:\\s*\\{([\\s\\S]*?)\\n(?:\\t{2}| {8})\\}`)\<close>; the
  name is escaped, so it is matched as a literal.
\<close>

definition schemaDefinitionRegex :: "string \<Rightarrow> rx list" where
  "schemaDefinitionRegex responseSchemaName =
     lit responseSchemaName @ lit '':'' @ [Star Ws] @ lit ''{''
     @ [Open, StarL Any, Close, C (Is LF), Alt [C (Is TAB), C (Is TAB)] (lit ''        '')]
     @ lit ''}''"

text \<open>\<open>/data\??:\s*components\[['"]schemas['"]\]\[['"]([^'"]+)['"]\]/\<close>\<close>

definition dataFieldRegex :: "rx list" where
  "dataFieldRegex =
     lit ''data'' @ [Opt (Is (CHR ''?''))] @ lit '':'' @ [Star Ws] @ schemaRefOpen
     @ [Open] @ rplus notQuote @ [Close] @ schemaRefClose"

text \<open>
  \<open>/responses:\s*\{[\s\S]*?20\d:\s*\{[\s\S]*?['"]application\/json['"]:\s*\{[\s\S]*?data\??\s*:\s*components\[['"]schemas['"]\]\[['"]([^'"]+)['"]\]/\<close>
  and the same with \<open>default\<close> for \<open>20\d\<close>.
\<close>

definition inlineResponseWithDataRegex :: "rx list \<Rightarrow> rx list" where
  "inlineResponseWithDataRegex status =
     responsesOpen @ status @ statusOpen @ jsonKey @ lit ''{'' @ [StarL Any]
     @ lit ''data'' @ [Opt (Is (CHR ''?'')), Star Ws] @ lit '':'' @ [Star Ws] @ schemaRefOpen
     @ [Open] @ rplus notQuote @ [Close] @ schemaRefClose"

text \<open>
  \<open>/responses:\s*\{[\s\S]*?20\d:\s*\{[\s\S]*?['"]application\/json['"]:\s*\{[\s\S]*?code\s*:\s*number/\<close>
  and the same with \<open>default\<close>.
\<close>

definition inlineResponseWithoutDataRegex :: "rx list \<Rightarrow> rx list" where
  "inlineResponseWithoutDataRegex status =
     responsesOpen @ status @ statusOpen @ jsonKey @ lit ''{'' @ [StarL Any]
     @ lit ''code'' @ [Star Ws] @ lit '':'' @ [Star Ws] @ lit ''number''"

text \<open>\<open>/responses:\s*\{[\s\S]*?204:/\<close>\<close>

definition noContentRegex :: "rx list" where
  "noContentRegex = responsesOpen @ lit ''204:''"

text \<open>
  \<open>/responses:\s*\{[\s\S]*?20\d:\s*\{[\s\S]*?content\?:\s*never/\<close> and the same with
  \<open>default\<close>.
\<close>

definition noContentResponseRegex :: "rx list \<Rightarrow> rx list" where
  "noContentResponseRegex status =
     responsesOpen @ status @ statusOpen @ lit ''content?:'' @ [Star Ws] @ lit ''never''"

text \<open>\<open>m = s.match(r1); if (!m) m = s.match(r2)\<close>\<close>

definition matchEither :: "rx list \<Rightarrow> rx list \<Rightarrow> string \<Rightarrow> string list option" where
  "matchEither r1 r2 s =
     (case rcaptures r1 s of Some cs \<Rightarrow> Some cs | None \<Rightarrow> rcaptures r2 s)"

text \<open>\<open>components['schemas']['${name}']\<close>, as the aliases are printed.\<close>

definition schemaRef :: "string \<Rightarrow> string" where
  "schemaRef name = ''components['schemas']['' @ [SQ] @ name @ [SQ] @ '']''"

text \<open>The lines pushed to \<open>generatedTypes\<close>, and whether the warning was logged.\<close>

definition processSchema_response :: "string \<Rightarrow> string \<Rightarrow> string \<Rightarrow> string list \<times> bool" where
  "processSchema_response operationId operationDetails componentsSchemasBlock =
     (case rcaptures responseSchemaRegex operationDetails of
        Some cs \<Rightarrow>
          (let responseSchemaName = concat (take 1 cs) in
           ([''export type '' @ operationId @ ''_Response = '' @ schemaRef responseSchemaName @ '';'']
            @ (case rcaptures (schemaDefinitionRegex responseSchemaName) componentsSchemasBlock of
                 None \<Rightarrow> []
               | Some ds \<Rightarrow>
                   (case rcaptures dataFieldRegex (concat (take 1 ds)) of
                      None \<Rightarrow> []
                    | Some rs \<Rightarrow>
                        [''export type '' @ operationId @ ''_RO = ''
                           @ schemaRef (concat (take 1 rs)) @ '';''])),
            False))
      | None \<Rightarrow>
          (case matchEither (inlineResponseWithDataRegex status20x)
                  (inlineResponseWithDataRegex (lit ''default'')) operationDetails of
             Some rs \<Rightarrow>
               ([''export type '' @ operationId
                   @ ''_Response = { code: number; message: string; data?: ''
                   @ schemaRef (concat (take 1 rs)) @ ''; };'',
                 ''export type '' @ operationId @ ''_RO = '' @ schemaRef (concat (take 1 rs)) @ '';''],
                False)
           | None \<Rightarrow>
               (case matchEither (inlineResponseWithoutDataRegex status20x)
                       (inlineResponseWithoutDataRegex (lit ''default'')) operationDetails of
                  Some ws \<Rightarrow>
                    ([''export type '' @ operationId
                        @ ''_Response = { code: number; message: string; };''], False)
                | None \<Rightarrow>
                    if rtest noContentRegex operationDetails
                    then ([''export type '' @ operationId @ ''_Response = void;''], False)
                    else
                      (case matchEither (noContentResponseRegex status20x)
                              (noContentResponseRegex (lit ''default'')) operationDetails of
                         Some ns \<Rightarrow> ([''export type '' @ operationId @ ''_Response = void;''], False)
                       | None \<Rightarrow> ([''export type '' @ operationId @ ''_Response = any;''], True)))))"

section \<open>Facts about the matcher\<close>

lemma rsearch_Bos_False: "rsearch (Bos # r) s False = None"
  by (induction s) auto

lemma rtest_Bos: "rtest (Bos # r) s = (rmatch r s True [] [] \<noteq> None)"
  by (cases s) (auto simp: rtest_def rsearch_Bos_False split: option.splits)

lemma rmatch_Star_Eos:
  "rmatch [Star k, Eos] s b os cs = (if list_all (in_cls k) s then Some ([], cs) else None)"
  by (induction s arbitrary: b) auto

section \<open>Tag classifier: properties\<close>

lemma rtest_versionRx: "rtest versionRx s = versioned s"
proof (cases s)
  case Nil
  then show ?thesis by (simp add: versionRx_def rplus_def rtest_Bos versioned_def)
next
  case (Cons c ds)
  then show ?thesis
    by (cases ds)
      (auto simp: versionRx_def rplus_def rtest_Bos versioned_def rmatch_Star_Eos list_all_iff)
qed

lemma versioned_not_word: "versioned s \<Longrightarrow> s \<noteq> ''internal'' \<and> s \<noteq> ''tournament''"
  by (auto simp: versioned_def digitChars_def)

lemma extractTag_spec:
  "TagsGenerator_extractTagFromPath path schemaName =
     (if schemaName = ''content'' \<and> segments path \<noteq> []
         \<and> relevantSegment (segments path) = ''tournament''
      then None else claimed_tag path)"
proof (cases "segments path")
  case Nil
  then show ?thesis
    by (simp add: TagsGenerator_extractTagFromPath_def claimed_tag_def)
next
  case (Cons s0 rest)
  show ?thesis
  proof (cases rest)
    case Nil
    with Cons versioned_not_word[of s0] show ?thesis
      by (auto simp: TagsGenerator_extractTagFromPath_def claimed_tag_def relevantSegment_def
          tagOfSegments_def rtest_versionRx)
  next
    case (Cons s1 more)
    with \<open>segments path = s0 # rest\<close> show ?thesis
      by (auto simp: TagsGenerator_extractTagFromPath_def claimed_tag_def relevantSegment_def
          tagOfSegments_def rtest_versionRx)
  qed
qed

lemma collectTags_tags:
  "set (fst (collectTags sn paths (tags, pd))) = set tags \<union> nonNullTags sn paths"
  by (induction paths arbitrary: tags pd) (auto simp: nonNullTags_def split: option.splits)

lemma collectTags_distinct:
  "distinct tags \<Longrightarrow> distinct (fst (collectTags sn paths (tags, pd)))"
  by (induction paths arbitrary: tags pd) (auto split: option.splits)

lemma collectTags_data:
  "map pd_tag (snd (collectTags sn paths (tags, pd))) =
     map pd_tag pd @ List.map_filter (\<lambda>p. TagsGenerator_extractTagFromPath p sn) paths"
  by (induction paths arbitrary: tags pd) (auto simp: List.map_filter_simps split: option.splits)

lemma tagStats_proto: "t \<in> set objectPrototypeKeys \<Longrightarrow> tagStats ds m t = m t"
  by (induction ds arbitrary: m) auto

lemma tagStats_count:
  "t \<notin> set objectPrototypeKeys \<Longrightarrow>
   tagStats ds m t =
     (if filter (\<lambda>x. x = t) (map pd_tag ds) = [] then m t
      else Some (length (filter (\<lambda>x. x = t) (map pd_tag ds))
                 + (case m t of None \<Rightarrow> 0 | Some k \<Rightarrow> k)))"
  by (induction ds arbitrary: m) (auto split: option.splits)

lemma filter_map_filter_tag:
  "length (filter (\<lambda>x. x = t)
     (List.map_filter (\<lambda>p. TagsGenerator_extractTagFromPath p sn) paths)) = tagCount sn paths t"
  by (induction paths) (auto simp: List.map_filter_simps tagCount_def split: option.splits)

lemma tagCount_pos: "t \<in> nonNullTags sn paths \<Longrightarrow> 0 < tagCount sn paths t"
  by (auto simp: nonNullTags_def tagCount_def filter_empty_conv intro!: length_pos_if_in_set)

lemma finite_nonNullTags: "finite (nonNullTags sn paths)"
proof -
  have "nonNullTags sn paths
      \<subseteq> set (List.map_filter (\<lambda>p. TagsGenerator_extractTagFromPath p sn) paths)"
    by (auto simp: nonNullTags_def List.map_filter_def intro!: image_eqI)
  then show ?thesis by (rule finite_subset) simp
qed

lemma tag_tables:
  assumes "collectTags sn paths ([], []) = (tags, pd)"
  shows "generateTagFile_TAGS tags pd = sorted_list_of_set (nonNullTags sn paths)"
    and "generateTagFile_TAG_STATS tags pd =
           map (\<lambda>t. (t, if t \<in> set objectPrototypeKeys then None
                        else Some (tagCount sn paths t)))
             (sorted_list_of_set (nonNullTags sn paths))"
proof -
  have s: "set tags = nonNullTags sn paths" and d: "distinct tags"
    using collectTags_tags[of sn paths "[]" "[]"] collectTags_distinct[of "[]" sn paths "[]"] assms
    by auto
  have pdt: "map pd_tag pd = List.map_filter (\<lambda>p. TagsGenerator_extractTagFromPath p sn) paths"
    using collectTags_data[of sn paths "[]" "[]"] assms by simp
  show T: "generateTagFile_TAGS tags pd = sorted_list_of_set (nonNullTags sn paths)"
    using d by (simp add: generateTagFile_TAGS_def sortedTags_def sorted_list_of_set_sort_remdups
        distinct_remdups_id flip: s)
  have "\<And>t. t \<in> nonNullTags sn paths \<Longrightarrow> tagStats pd Map.empty t =
      (if t \<in> set objectPrototypeKeys then None else Some (tagCount sn paths t))"
  proof -
    fix t assume "t \<in> nonNullTags sn paths"
    then have "0 < tagCount sn paths t" by (rule tagCount_pos)
    then show "tagStats pd Map.empty t =
      (if t \<in> set objectPrototypeKeys then None else Some (tagCount sn paths t))"
      by (auto simp: tagStats_proto tagStats_count pdt filter_map_filter_tag
          simp flip: length_0_conv)
  qed
  then show "generateTagFile_TAG_STATS tags pd =
           map (\<lambda>t. (t, if t \<in> set objectPrototypeKeys then None
                        else Some (tagCount sn paths t)))
             (sorted_list_of_set (nonNullTags sn paths))"
    using T finite_nonNullTags[of sn paths]
    by (simp add: generateTagFile_TAG_STATS_def generateTagFile_TAGS_def)
qed

lemma collectTags_filter:
  "collectTags sn (filter (\<lambda>p. TagsGenerator_extractTagFromPath p sn \<noteq> None) paths) acc
     = collectTags sn paths acc"
  by (induction paths arbitrary: acc) (auto split: option.splits)

lemma stats_keys:
  "map fst (generateTagFile_TAG_STATS tags pathsData) = generateTagFile_TAGS tags pathsData"
  by (simp add: generateTagFile_TAG_STATS_def generateTagFile_TAGS_def comp_def)

text \<open>
  C4, as stated, fails: the classifier takes the server name as a second argument, and
  for the server \<open>content\<close> it also excludes the relevant segment \<open>tournament\<close>. The path
  \<open>/tournament/list\<close> has segment 0 \<open>tournament\<close>, which is not a version and not
  \<open>internal\<close>, so the claim gives the tag \<open>tournament\<close>; the classifier returns \<open>null\<close>.
\<close>

theorem C4_counterexample:
  "TagsGenerator_extractTagFromPath ''/tournament/list'' ''content'' = None
   \<and> claimed_tag ''/tournament/list'' = Some ''tournament''"
  by code_simp

text \<open>
  C4 (amended). For every path and server name the classifier returns \<open>root\<close> if the path
  has no non-empty segment; \<open>null\<close> if the relevant segment (segment 1 when segment 0
  matches \<open>v\d+\<close> and a segment 1 exists, segment 0 otherwise) is \<open>internal\<close>, or is
  \<open>tournament\<close> and the server is \<open>content\<close>; otherwise \<open>{seg0}_{seg1}\<close> in the versioned
  case and segment 0 else. For every server other than \<open>content\<close> this is the rule of the
  claim. So \<open>/v1/internal/x\<close> is excluded, \<open>/v1/users\<close> has the tag \<open>v1_users\<close> and
  \<open>/users/{id}\<close> the tag \<open>users\<close>. Excluded paths contribute nothing to the emitted tag
  list or to the statistics: both list the distinct non-null tags of the paths in sorted
  order, and dropping the excluded paths beforehand changes neither the tags nor the
  paths data they are computed from.
\<close>

theorem C4_tag_classifier:
  "TagsGenerator_extractTagFromPath path schemaName =
     (if schemaName = ''content'' \<and> segments path \<noteq> []
         \<and> relevantSegment (segments path) = ''tournament''
      then None else claimed_tag path)
   \<and> (schemaName \<noteq> ''content'' \<longrightarrow>
        TagsGenerator_extractTagFromPath path schemaName = claimed_tag path)
   \<and> TagsGenerator_extractTagFromPath ''/v1/internal/x'' schemaName = None
   \<and> TagsGenerator_extractTagFromPath ''/v1/users'' schemaName = Some ''v1_users''
   \<and> TagsGenerator_extractTagFromPath ''/users/{id}'' schemaName = Some ''users''
   \<and> (case collectTags schemaName paths ([], []) of
        (tags, pathsData) \<Rightarrow>
          generateTagFile_TAGS tags pathsData = sorted_list_of_set (nonNullTags schemaName paths)
          \<and> map fst (generateTagFile_TAG_STATS tags pathsData)
              = sorted_list_of_set (nonNullTags schemaName paths))
   \<and> collectTags schemaName
        (filter (\<lambda>p. TagsGenerator_extractTagFromPath p schemaName \<noteq> None) paths) ([], [])
      = collectTags schemaName paths ([], [])"
proof -
  have seg1: "segments ''/v1/internal/x'' = [''v1'', ''internal'', ''x'']"
    and seg2: "segments ''/v1/users'' = [''v1'', ''users'']"
    and seg3: "segments ''/users/{id}'' = [''users'', ''{id}'']"
    and v1: "versioned ''v1''" and v2: "\<not> versioned ''users''"
    by code_simp+
  have ex: "TagsGenerator_extractTagFromPath ''/v1/internal/x'' schemaName = None"
    "TagsGenerator_extractTagFromPath ''/v1/users'' schemaName = Some ''v1_users''"
    "TagsGenerator_extractTagFromPath ''/users/{id}'' schemaName = Some ''users''"
    by (simp_all add: extractTag_spec claimed_tag_def seg1 seg2 seg3 relevantSegment_def
        tagOfSegments_def v1 v2)
  obtain tags pd where c: "collectTags schemaName paths ([], []) = (tags, pd)"
    by (cases "collectTags schemaName paths ([], [])")
  have t: "generateTagFile_TAGS tags pd = sorted_list_of_set (nonNullTags schemaName paths)"
    by (rule tag_tables(1)[OF c])
  have k: "map fst (generateTagFile_TAG_STATS tags pd)
      = sorted_list_of_set (nonNullTags schemaName paths)"
    by (simp only: stats_keys t)
  show ?thesis
    using ex t k extractTag_spec[of path schemaName]
      collectTags_filter[of schemaName paths "([], [])"]
    by (simp add: c)
qed

theorem C4_tag_classifier_witness:
  "''auth'' \<noteq> ''content''
   \<and> TagsGenerator_extractTagFromPath ''/v2/tournament/7'' ''content'' = None
   \<and> TagsGenerator_extractTagFromPath ''/v2/tournament/7'' ''auth'' = Some ''v2_tournament''
   \<and> map fst (generateTagFile_TAG_STATS
        (fst (collectTags ''auth'' [''/v1/users'', ''/auth/login'', ''/v1/internal/x'', ''/v1/users/{id}'']
                ([], [])))
        (snd (collectTags ''auth'' [''/v1/users'', ''/auth/login'', ''/v1/internal/x'', ''/v1/users/{id}'']
                ([], []))))
      = [''auth'', ''v1_users'']"
proof -
  have e: "segments ''/v2/tournament/7'' \<noteq> []"
    "relevantSegment (segments ''/v2/tournament/7'') = ''tournament''"
    "claimed_tag ''/v2/tournament/7'' = Some ''v2_tournament''"
    "''auth'' \<noteq> ''content''"
    by code_simp+
  have t: "map fst (generateTagFile_TAG_STATS
        (fst (collectTags ''auth'' [''/v1/users'', ''/auth/login'', ''/v1/internal/x'', ''/v1/users/{id}'']
                ([], [])))
        (snd (collectTags ''auth'' [''/v1/users'', ''/auth/login'', ''/v1/internal/x'', ''/v1/users/{id}'']
                ([], []))))
      = [''auth'', ''v1_users'']"
    by code_simp
  from C4_tag_classifier[of "''/v2/tournament/7''" "''content''" "[]"]
  have 1: "TagsGenerator_extractTagFromPath ''/v2/tournament/7'' ''content'' = None"
    using e by simp
  from C4_tag_classifier[of "''/v2/tournament/7''" "''auth''" "[]"] e(4)
  have 2: "TagsGenerator_extractTagFromPath ''/v2/tournament/7'' ''auth'' = claimed_tag ''/v2/tournament/7''"
    by blast
  from 1 2 e t show ?thesis by simp
qed

section \<open>The two tag functions\<close>

text \<open>
  C10 fails on the code: the classifier tests segment 0 with \<open>/^v\d+$/\<close>, the naming
  function with \<open>/^v\d+$/i\<close>. For the path \<open>/V1/users\<close> the classifier returns the
  non-null tag \<open>V1\<close>, the naming function \<open>V1_users\<close>.
\<close>

theorem C10_tag_functions_disagree:
  "TagsGenerator_extractTagFromPath ''/V1/users'' ''auth'' = Some ''V1''
   \<and> NamingConventions_extractTagFromPath ''/V1/users'' = ''V1_users''"
  by code_simp

section \<open>Hook classification: properties\<close>

lemma hooks_default_prefixes:
  assumes "toLowerCase method \<in> {''get'', ''post'', ''put'', ''patch'', ''delete''}"
  shows "classifyHook (generateFunctionName defaultFunctionNaming path method)
           = (if toLowerCase method = ''get'' then Query else Mutation)"
  using assms
  by (auto simp: classifyHook_def generateFunctionName_def methodPrefix_def
      defaultFunctionNaming_def startsWith_def)

text \<open>
  C8 fails on the code for a configured prefix table. The classification looks at the
  wrapper's name only: a name starting with \<open>create\<close>, \<open>modify\<close>, \<open>remove\<close>, \<open>update\<close> or
  \<open>delete\<close> is a mutation, every other name a query. With the table
  \<open>{get: fetch, post: add, put: replace, delete: remove}\<close> (the "service style" the
  configuration documents) the wrapper of \<open>POST /users\<close> is \<open>addUsers\<close>, and it is
  classified as a query hook.
\<close>

theorem C8_service_style_post_is_query:
  "generateFunctionName serviceStyle ''/users'' ''post'' = ''addUsers''
   \<and> classifyHook (generateFunctionName serviceStyle ''/users'' ''post'') = Query
   \<and> map (\<lambda>f. (fn_name f, fn_hookType f))
        (parseAPIFile
           (wrapperCode ''/** doc */'' (generateFunctionName serviceStyle ''/users'' ''post'')
              ''body: createUser_Body'' ''createUser_Response'' ''post'' ''/users'' '', { body }'')
           ''users'' ''auth'')
      = [(''addUsers'', Query)]"
  by code_simp

section \<open>Orchestrator: properties\<close>

lemma runSteps_abort:
  assumes "aborts g x s"
  shows "runSteps g x (pre @ s # post) st = runSteps g x (pre @ [s]) st"
  using assms
  by (induction pre arbitrary: st) (auto simp: aborts_def split: option.splits)

lemma runSteps_reached: "runSteps g x steps st = runSteps g x (reached g x steps) st"
  by (induction steps arbitrary: st) (auto simp: aborts_def split: option.splits)

lemma runSteps_continue:
  assumes "g (st_executor s)" "\<not> st_required s" "x s = Some msg"
  shows "runSteps g x (s # rest) st =
     runSteps g x rest
       (st\<lparr>failed := failed st @ [(st_name s, msg)], ran := ran st @ [st_name s],
           logged := logged st @ [StepHeader (st_name s), ErrorStepFailed (st_name s) msg]\<rparr>)"
  using assms by simp

lemma runSteps_ran:
  "ran (runSteps g x steps st) =
     ran st @ map st_name (filter (\<lambda>s. g (st_executor s)) (reached g x steps))"
  by (induction steps arbitrary: st) (auto simp: aborts_def split: option.splits)

lemma runSteps_success:
  "success (runSteps g x steps st) =
     success st @ map st_name (filter (\<lambda>s. g (st_executor s) \<and> x s = None) (reached g x steps))"
  by (induction steps arbitrary: st) (auto simp: aborts_def split: option.splits)

lemma runSteps_failed:
  "failed (runSteps g x steps st) =
     failed st @ List.map_filter
       (\<lambda>s. if g (st_executor s) then map_option (Pair (st_name s)) (x s) else None)
       (reached g x steps)"
  by (induction steps arbitrary: st)
    (auto simp: aborts_def List.map_filter_simps split: option.splits)

lemma runSteps_logged_prefix: "prefix (logged st) (logged (runSteps g x steps st))"
proof (induction steps arbitrary: st)
  case Nil
  then show ?case by simp
next
  case (Cons a steps)
  have step: "\<And>st'. prefix (logged st) (logged st') \<Longrightarrow>
      prefix (logged st) (logged (runSteps g x steps st'))"
    using Cons.IH prefix_order.trans by blast
  show ?case
    by (auto split: option.splits intro!: step)
qed

lemma runSteps_logged_mono: "set (logged st) \<subseteq> set (logged (runSteps g x steps st))"
  using runSteps_logged_prefix[of st g x steps] by (auto simp: prefix_def)

lemma runSteps_warned:
  "s \<in> set (reached g x steps) \<Longrightarrow> \<not> g (st_executor s)
     \<Longrightarrow> WarnNoGenerator (st_executor s) \<in> set (logged (runSteps g x steps st))"
proof (induction steps arbitrary: st)
  case Nil
  then show ?case by simp
next
  case (Cons a steps)
  show ?case
  proof (cases "s = a")
    case True
    with Cons.prems(2) runSteps_logged_mono[of "st\<lparr>logged := logged st
                 @ [StepHeader (st_name a), WarnNoGenerator (st_executor a)]\<rparr>" g x steps]
    show ?thesis by auto
  next
    case False
    with Cons show ?thesis
      by (auto simp: aborts_def split: option.splits if_splits)
  qed
qed

lemma reached_prefix: "prefix (reached g x steps) steps"
  by (induction steps) auto

lemma reached_all: "\<forall>s \<in> set steps. \<not> aborts g x s \<Longrightarrow> reached g x steps = steps"
  by (induction steps) auto

text \<open>
  C9. In every run of the loop of \<open>generateAll\<close>, over any list of enabled steps, any set
  of registered generators and any outcomes of the steps: when a required step throws,
  the steps after it have no effect at all (the run is the run of the steps up to it);
  when an optional step throws, the failure is appended to the failed list and the loop
  goes on with the remaining steps; the executors called are those of the steps reached
  that have a generator, the success list holds those that returned and the failed list
  those that threw, with their messages; every step reached is in the success list, in
  the failed list, or has its "no generator" warning in the log; and the summary printed
  at the end lists the success list and the failed list.
\<close>

theorem C9_orchestrator:
  "(aborts g x s \<longrightarrow> runSteps g x (pre @ s # post) st = runSteps g x (pre @ [s]) st)
   \<and> (g (st_executor s) \<and> \<not> st_required s \<and> x s = Some msg \<longrightarrow>
        runSteps g x (s # rest) st =
          runSteps g x rest
            (st\<lparr>failed := failed st @ [(st_name s, msg)], ran := ran st @ [st_name s],
                logged := logged st @ [StepHeader (st_name s), ErrorStepFailed (st_name s) msg]\<rparr>))
   \<and> ran (runSteps g x steps initialRun) =
        map st_name (filter (\<lambda>s. g (st_executor s)) (reached g x steps))
   \<and> success (runSteps g x steps initialRun) =
        map st_name (filter (\<lambda>s. g (st_executor s) \<and> x s = None) (reached g x steps))
   \<and> failed (runSteps g x steps initialRun) =
        List.map_filter
          (\<lambda>s. if g (st_executor s) then map_option (Pair (st_name s)) (x s) else None)
          (reached g x steps)
   \<and> (\<forall>s \<in> set (reached g x steps).
         st_name s \<in> set (success (runSteps g x steps initialRun))
         \<or> st_name s \<in> fst ` set (failed (runSteps g x steps initialRun))
         \<or> WarnNoGenerator (st_executor s) \<in> set (logged (runSteps g x steps initialRun)))
   \<and> generateAll ff g x =
        (let fin = runSteps g x (getEnabledSteps ff defineSteps) initialRun
         in ((success fin, failed fin),
             logged fin @ map SummarySuccess (success fin)
               @ map (\<lambda>(n, e). SummaryFailed n e) (failed fin)))"
proof -
  have acc: "\<forall>s \<in> set (reached g x steps).
         st_name s \<in> set (success (runSteps g x steps initialRun))
         \<or> st_name s \<in> fst ` set (failed (runSteps g x steps initialRun))
         \<or> WarnNoGenerator (st_executor s) \<in> set (logged (runSteps g x steps initialRun))"
  proof
    fix s assume r: "s \<in> set (reached g x steps)"
    show "st_name s \<in> set (success (runSteps g x steps initialRun))
         \<or> st_name s \<in> fst ` set (failed (runSteps g x steps initialRun))
         \<or> WarnNoGenerator (st_executor s) \<in> set (logged (runSteps g x steps initialRun))"
    proof (cases "g (st_executor s)")
      case False
      with r show ?thesis by (simp add: runSteps_warned)
    next
      case True
      show ?thesis
      proof (cases "x s")
        case None
        with True r show ?thesis by (auto simp: runSteps_success initialRun_def)
      next
        case (Some msg)
        with True r have "(st_name s, msg) \<in> set (failed (runSteps g x steps initialRun))"
          by (auto simp: runSteps_failed initialRun_def List.map_filter_def intro!: image_eqI[of _ _ s])
        then show ?thesis by force
      qed
    qed
  qed
  have ab: "aborts g x s \<longrightarrow> runSteps g x (pre @ s # post) st = runSteps g x (pre @ [s]) st"
    using runSteps_abort by blast
  have rest: "ran (runSteps g x steps initialRun) =
        map st_name (filter (\<lambda>s. g (st_executor s)) (reached g x steps))"
    "success (runSteps g x steps initialRun) =
        map st_name (filter (\<lambda>s. g (st_executor s) \<and> x s = None) (reached g x steps))"
    "failed (runSteps g x steps initialRun) =
        List.map_filter
          (\<lambda>s. if g (st_executor s) then map_option (Pair (st_name s)) (x s) else None)
          (reached g x steps)"
    by (simp_all add: runSteps_ran runSteps_success runSteps_failed initialRun_def)
  have ga: "generateAll ff g x =
        (let fin = runSteps g x (getEnabledSteps ff defineSteps) initialRun
         in ((success fin, failed fin),
             logged fin @ map SummarySuccess (success fin)
               @ map (\<lambda>(n, e). SummaryFailed n e) (failed fin)))"
    by (simp add: generateAll_def summary_def Let_def)
  have co: "g (st_executor s) \<and> \<not> st_required s \<and> x s = Some msg \<longrightarrow>
        runSteps g x (s # rest) st =
          runSteps g x rest
            (st\<lparr>failed := failed st @ [(st_name s, msg)], ran := ran st @ [st_name s],
                logged := logged st @ [StepHeader (st_name s), ErrorStepFailed (st_name s) msg]\<rparr>)"
    by simp
  from ab co rest acc ga show ?thesis by blast
qed

theorem C9_orchestrator_witness:
  "aborts (\<lambda>e. True) (throwsAt ''generateTags'' ''no paths'') (defineSteps ! 1)
   \<and> ran (runSteps (\<lambda>e. True) (throwsAt ''generateTags'' ''no paths'') defineSteps initialRun)
       = [''OpenAPI types'', ''Swagger tags'']
   \<and> fst (generateAll allOn (\<lambda>e. True) (throwsAt ''generateEndpoints'' ''boom''))
       = ([''OpenAPI types'', ''Swagger tags'', ''validated types'', ''deep schema'',
           ''domain API'', ''React Query hooks''], [(''endpoints'', ''boom'')])"
proof -
  let ?g = "\<lambda>e::string. True"
  let ?x = "throwsAt ''generateTags'' ''no paths''"
  have a: "aborts ?g ?x (defineSteps ! 1)" by code_simp
  have split: "defineSteps = take 1 defineSteps @ (defineSteps ! 1) # drop 2 defineSteps"
    by code_simp
  have r: "ran (runSteps ?g ?x (take 1 defineSteps @ [defineSteps ! 1]) initialRun)
             = [''OpenAPI types'', ''Swagger tags'']"
    by code_simp
  have e: "runSteps ?g ?x (take 1 defineSteps @ (defineSteps ! 1) # drop 2 defineSteps) initialRun
        = runSteps ?g ?x (take 1 defineSteps @ [defineSteps ! 1]) initialRun"
    using C9_orchestrator[of ?g ?x "defineSteps ! 1" "take 1 defineSteps" "drop 2 defineSteps"
        initialRun] a by blast
  have f: "fst (generateAll allOn ?g (throwsAt ''generateEndpoints'' ''boom''))
       = ([''OpenAPI types'', ''Swagger tags'', ''validated types'', ''deep schema'',
           ''domain API'', ''React Query hooks''], [(''endpoints'', ''boom'')])"
    by code_simp
  have r': "ran (runSteps ?g ?x defineSteps initialRun) = [''OpenAPI types'', ''Swagger tags'']"
    by (subst split) (simp only: e r)
  from a r' f show ?thesis by blast
qed

section \<open>Brace scanner: properties\<close>

text \<open>
  C2 fails on the code. Inside a block comment the scan still tests for \<open>//\<close>, and then
  takes the rest of the line for a line comment: the block comment is forgotten at the
  end of that line, and a brace on a later line of the same block comment is counted.
  In the text below the schema \<open>A\<close> opens at index 3; the brace at index 22 stands
  inside the block comment, and is taken for the closing brace of \<open>A\<close>: the body
  kept for \<open>A\<close> ends inside the comment and the property \<open>b\<close> is lost.
\<close>

theorem C2_comment_brace_counted:
  "matchClose (''A: { /* see http://x'' @ [LF] @ '' } */ b: string; }'') 3 = Some 23
   \<and> (''A: { /* see http://x'' @ [LF] @ '' } */ b: string; }'') ! 22 = CHR ''}''
   \<and> extractSchemasWithValidatedLogic (''A: { /* see http://x'' @ [LF] @ '' } */ b: string; }'') []
       = ([(''A'', ''/* see http://x'')], [SchemaOk ''A'' 15])"
  by code_simp

section \<open>Nested schema walker: properties\<close>

lemma walkLoop_visited:
  "set ns \<subseteq> set (processedTypes st) \<Longrightarrow> walkLoop A ns d st = ([], st)"
  by (induction ns) auto

lemma walkResult_Nil: "walkResult d st ([], st)"
  by (simp add: walkResult_def)

lemma walkResult_skip:
  assumes "walkResult d (st\<lparr>processedTypes := processedTypes st @ [n]\<rparr>) r"
  shows "walkResult d st r"
  using assms by (auto simp: walkResult_def list_all_iff)

lemma walkResult_step:
  assumes "n \<notin> set (processedTypes st)" "d \<le> maxDepth"
    and "walkResult (d + 1) (st\<lparr>processedTypes := processedTypes st @ [n]\<rparr>) (deeper, st2)"
    and "walkResult d st2 (rest, st3)"
  shows "walkResult d st
           (\<lparr>nt_schemaName = n, nt_properties = ps, nt_depth = d\<rparr> # deeper @ rest, st3)"
  using assms by (auto simp: walkResult_def list_all_iff)

lemma walk_results:
  "walkResult d st (processNestedSchemas A ns d st)
   \<and> (d \<le> maxDepth \<longrightarrow> set ns \<subseteq> set (processedTypes (snd (processNestedSchemas A ns d st))))"
  "(d \<le> maxDepth \<longrightarrow> walkResult d st (walkLoop A ns d st))
   \<and> set (processedTypes st) \<union> set ns \<subseteq> set (processedTypes (snd (walkLoop A ns d st)))"
proof (induction A ns d st and A ns d st rule: processNestedSchemas_walkLoop.induct)
  case (1 allSchemas nestedSchemas depth st)
  then show ?case by (auto simp: walkResult_def)
next
  case (2 allSchemas depth st)
  then show ?case by (simp add: walkResult_Nil)
next
  case (3 allSchemas schemaName others depth st)
  show ?case
  proof (cases "schemaName \<in> set (processedTypes st)")
    case True
    with "3.IH"(1) show ?thesis by auto
  next
    case False
    define st1 where "st1 = st\<lparr>processedTypes := processedTypes st @ [schemaName]\<rparr>"
    show ?thesis
    proof (cases "map_of allSchemas schemaName")
      case None
      with False "3.IH"(2)[OF False st1_def None] show ?thesis
        by (auto simp: st1_def intro: walkResult_skip)
    next
      case (Some body)
      obtain props further where e: "extractAllProperties body schemaName = (props, further)"
        by (cases "extractAllProperties body schemaName")
      obtain deeper st2 where d: "(if further \<noteq> []
                         then processNestedSchemas allSchemas further (depth + 1) st1
                         else ([], st1)) = (deeper, st2)"
        by (cases "(if further \<noteq> []
                         then processNestedSchemas allSchemas further (depth + 1) st1
                         else ([], st1))")
      obtain rest st3 where r: "walkLoop allSchemas others depth st2 = (rest, st3)"
        by (cases "walkLoop allSchemas others depth st2")
      have w1: "walkResult (depth + 1) st1 (deeper, st2)"
      proof (cases "further = []")
        case True
        with d show ?thesis by (simp add: walkResult_Nil)
      next
        case f: False
        from "3.IH"(3)[OF False st1_def Some e[symmetric] f] d f show ?thesis by simp
      qed
      have w2: "(depth \<le> maxDepth \<longrightarrow> walkResult depth st2 (rest, st3))
          \<and> set (processedTypes st2) \<union> set others \<subseteq> set (processedTypes st3)"
        using "3.IH"(4)[OF False st1_def Some e[symmetric] d[symmetric]] r by simp
      have eq: "walkLoop allSchemas (schemaName # others) depth st =
          (\<lparr>nt_schemaName = schemaName, nt_properties = props, nt_depth = depth\<rparr>
             # deeper @ rest, st3)"
        using False Some e d[unfolded st1_def] r
        by (simp add: Let_def del: processNestedSchemas.simps)
      have m1: "set (processedTypes st1) \<subseteq> set (processedTypes st2)"
        using w1 by (simp add: walkResult_def)
      have "depth \<le> maxDepth \<longrightarrow> walkResult depth st
           (\<lparr>nt_schemaName = schemaName, nt_properties = props, nt_depth = depth\<rparr>
              # deeper @ rest, st3)"
        using walkResult_step[OF False _ w1[unfolded st1_def]] w2 by blast
      moreover have "set (processedTypes st) \<union> set (schemaName # others)
          \<subseteq> set (processedTypes st3)"
        using m1 w2 by (auto simp: st1_def)
      ultimately show ?thesis by (simp only: eq fst_conv snd_conv) 
    qed
  qed
qed

text \<open>
  C3. \<open>processNestedSchemas\<close> is a total function: its recursion is accepted with a
  measure that falls with every call (the distance of the depth to the cap, then the
  length of the list walked), for every map of schemas, cyclic or not. Every recursive
  call is made at depth + 1. A call at a depth above the cap of 5 returns the empty
  result, logs one warning and changes nothing else. A call at a depth within the cap
  leaves every name it was given in the visited set; every schema it reports was not
  visited before the call and is visited after it, none is reported twice, and the
  reported depths lie between the depth of the call and the cap. A walk over names that
  are all visited already returns the empty result and leaves the state as it is; so
  walking the same names a second time adds nothing.
\<close>

theorem C3_walker:
  "(depth > maxDepth \<longrightarrow>
      processNestedSchemas allSchemas names depth st
        = ([], st\<lparr>depthWarnings := depthWarnings st + 1\<rparr>))
   \<and> (depth \<le> maxDepth \<and> set names \<subseteq> set (processedTypes st) \<longrightarrow>
        processNestedSchemas allSchemas names depth st = ([], st))
   \<and> walkResult depth st (processNestedSchemas allSchemas names depth st)
   \<and> (depth \<le> maxDepth \<longrightarrow>
        set names \<subseteq> set (processedTypes (snd (processNestedSchemas allSchemas names depth st))))
   \<and> (depth \<le> maxDepth \<longrightarrow>
        processNestedSchemas allSchemas names depth
            (snd (processNestedSchemas allSchemas names depth st))
          = ([], snd (processNestedSchemas allSchemas names depth st)))"
proof -
  have v: "depth \<le> maxDepth \<longrightarrow>
        set names \<subseteq> set (processedTypes (snd (processNestedSchemas allSchemas names depth st)))"
    using walk_results(1)[of depth st allSchemas names] by blast
  have i: "\<And>s. depth \<le> maxDepth \<and> set names \<subseteq> set (processedTypes s) \<longrightarrow>
        processNestedSchemas allSchemas names depth s = ([], s)"
    by (simp add: walkLoop_visited)
  have w: "walkResult depth st (processNestedSchemas allSchemas names depth st)"
    using walk_results(1)[of depth st allSchemas names] by blast
  have c: "depth > maxDepth \<longrightarrow>
      processNestedSchemas allSchemas names depth st
        = ([], st\<lparr>depthWarnings := depthWarnings st + 1\<rparr>)"
    by simp
  from v i[of st] i[of "snd (processNestedSchemas allSchemas names depth st)"] w c
  show ?thesis by blast
qed

theorem C3_walker_witness:
  "map (\<lambda>t. (nt_schemaName t, nt_depth t)) (fst (processNestedSchemas cyclicSchemas [''A''] 0 freshWalk))
     = [(''A'', 0), (''B'', 1)]
   \<and> processedTypes (snd (processNestedSchemas cyclicSchemas [''A''] 0 freshWalk)) = [''A'', ''B'']
   \<and> processNestedSchemas cyclicSchemas [''A''] 0
        (snd (processNestedSchemas cyclicSchemas [''A''] 0 freshWalk))
       = ([], snd (processNestedSchemas cyclicSchemas [''A''] 0 freshWalk))
   \<and> fst (processNestedSchemas cyclicSchemas [''A''] 6 freshWalk) = []"
proof -
  have r: "map (\<lambda>t. (nt_schemaName t, nt_depth t))
             (fst (processNestedSchemas cyclicSchemas [''A''] 0 freshWalk))
           = [(''A'', 0), (''B'', 1)]"
    "processedTypes (snd (processNestedSchemas cyclicSchemas [''A''] 0 freshWalk)) = [''A'', ''B'']"
    by code_simp+
  have d: "(0::nat) \<le> maxDepth" "(6::nat) > maxDepth" by (simp_all add: maxDepth_def)
  from C3_walker[of 0 cyclicSchemas "[''A'']" freshWalk]
    C3_walker[of 6 cyclicSchemas "[''A'']" freshWalk] r d
  show ?thesis by simp
qed

section \<open>Facts about the matcher, continued\<close>

lemma rmatch_lit:
  "rmatch (lit w @ r) s b os cs =
     (if prefix w s then rmatch r (drop (length w) s) (b \<and> w = []) os cs else None)"
proof (induction w arbitrary: s b)
  case Nil
  then show ?case by (simp add: lit_def)
next
  case (Cons c w)
  then show ?case by (cases s) (auto simp: lit_def)
qed

lemma rmatch_litCI:
  "rmatch (litCI w @ r) s b os cs =
     (if length w \<le> length s \<and> toLowerCase (take (length w) s) = toLowerCase w
      then rmatch r (drop (length w) s) (b \<and> w = []) os cs else None)"
proof (induction w arbitrary: s b)
  case Nil
  then show ?case by (simp add: litCI_def toLowerCase_def)
next
  case (Cons c w)
  then show ?case by (cases s) (auto simp: litCI_def toLowerCase_def)
qed

lemma rmatch_Eos: "rmatch [Eos] s b os cs = (if s = [] then Some ([], cs) else None)"
  by (cases s) auto

lemma rsearch_iff:
  "rsearch r s b \<noteq> None \<longleftrightarrow> (\<exists>n \<le> length s. rmatch r (drop n s) (b \<and> n = 0) [] [] \<noteq> None)"
proof (induction s arbitrary: b)
  case Nil
  then show ?case by (auto split: option.splits)
next
  case (Cons x xs)
  have "(\<exists>n \<le> length (x # xs). rmatch r (drop n (x # xs)) (b \<and> n = 0) [] [] \<noteq> None)
      \<longleftrightarrow> rmatch r (x # xs) b [] [] \<noteq> None
          \<or> (\<exists>n \<le> length xs. rmatch r (drop n xs) False [] [] \<noteq> None)"
    (is "?L \<longleftrightarrow> ?A \<or> ?B")
  proof
    assume ?L
    then obtain n where n: "n \<le> length (x # xs)"
      "rmatch r (drop n (x # xs)) (b \<and> n = 0) [] [] \<noteq> None" by blast
    show "?A \<or> ?B"
    proof (cases n)
      case 0
      with n show ?thesis by simp
    next
      case (Suc m)
      with n show ?thesis by auto
    qed
  next
    assume "?A \<or> ?B"
    then show ?L
    proof
      assume ?A
      then show ?L by (intro exI[of _ 0]) simp
    next
      assume ?B
      then obtain m where "m \<le> length xs" "rmatch r (drop m xs) False [] [] \<noteq> None" by blast
      then show ?L by (intro exI[of _ "Suc m"]) simp
    qed
  qed
  moreover have "rsearch r (x # xs) b \<noteq> None \<longleftrightarrow>
      rmatch r (x # xs) b [] [] \<noteq> None \<or> rsearch r xs False \<noteq> None"
    by (auto split: option.splits)
  ultimately show ?case using Cons.IH[of False] by simp
qed

lemma rmatch_Star_iff:
  "rmatch (Star k # r) s b os cs \<noteq> None \<longleftrightarrow>
     (\<exists>n \<le> length (takeWhile (in_cls k) s). rmatch r (drop n s) (b \<and> n = 0) os cs \<noteq> None)"
proof (induction s arbitrary: b)
  case Nil
  then show ?case by simp
next
  case (Cons x xs)
  show ?case
  proof (cases "in_cls k x")
    case False
    then show ?thesis by simp
  next
    case True
    have "(\<exists>n \<le> length (takeWhile (in_cls k) (x # xs)).
              rmatch r (drop n (x # xs)) (b \<and> n = 0) os cs \<noteq> None)
        \<longleftrightarrow> rmatch r (x # xs) b os cs \<noteq> None
            \<or> (\<exists>n \<le> length (takeWhile (in_cls k) xs). rmatch r (drop n xs) False os cs \<noteq> None)"
      (is "?L \<longleftrightarrow> ?A \<or> ?B")
    proof
      assume ?L
      then obtain n where n: "n \<le> length (takeWhile (in_cls k) (x # xs))"
        "rmatch r (drop n (x # xs)) (b \<and> n = 0) os cs \<noteq> None" by blast
      show "?A \<or> ?B"
      proof (cases n)
        case 0
        with n show ?thesis by simp
      next
        case (Suc m)
        with n True show ?thesis by auto
      qed
    next
      assume "?A \<or> ?B"
      then show ?L
      proof
        assume ?A
        then show ?L by (intro exI[of _ 0]) simp
      next
        assume ?B
        then obtain m where "m \<le> length (takeWhile (in_cls k) xs)"
          "rmatch r (drop m xs) False os cs \<noteq> None" by blast
        with True show ?L by (intro exI[of _ "Suc m"]) simp
      qed
    qed
    moreover have "rmatch (Star k # r) (x # xs) b os cs \<noteq> None \<longleftrightarrow>
        rmatch (Star k # r) xs False os cs \<noteq> None \<or> rmatch r (x # xs) b os cs \<noteq> None"
      using True by (auto split: option.splits)
    ultimately show ?thesis using Cons.IH[of False] by auto
  qed
qed

lemma rmatch_lit_Eos:
  "rmatch (lit w @ [Eos]) v b os cs = (if v = w then Some ([], cs) else None)"
proof -
  have "prefix w v \<and> drop (length w) v = [] \<longleftrightarrow> v = w"
    by (auto simp: prefix_def)
  then show ?thesis by (auto simp: rmatch_lit rmatch_Eos)
qed

lemma rmatch_litCI_Eos:
  "rmatch (litCI w @ [Eos]) v b os cs =
     (if toLowerCase v = toLowerCase w then Some ([], cs) else None)"
proof -
  have "length w \<le> length v \<and> toLowerCase (take (length w) v) = toLowerCase w
          \<and> drop (length w) v = []
      \<longleftrightarrow> toLowerCase v = toLowerCase w"
  proof
    assume "length w \<le> length v \<and> toLowerCase (take (length w) v) = toLowerCase w
          \<and> drop (length w) v = []"
    then show "toLowerCase v = toLowerCase w" by auto
  next
    assume e: "toLowerCase v = toLowerCase w"
    then have "length v = length w" unfolding toLowerCase_def by (rule map_eq_imp_length_eq)
    with e show "length w \<le> length v \<and> toLowerCase (take (length w) v) = toLowerCase w
          \<and> drop (length w) v = []" by simp
  qed
  then show ?thesis by (auto simp: rmatch_litCI rmatch_Eos)
qed

text \<open>\<open>/^w$/i\<close>\<close>

lemma rtest_whole_CI: "rtest ([Bos] @ litCI w @ [Eos]) s \<longleftrightarrow> toLowerCase s = toLowerCase w"
  by (simp add: rtest_Bos rmatch_litCI_Eos)

lemma drop_eq_suffix: "(\<exists>n \<le> length s. drop n s = v) \<longleftrightarrow> suffix v s"
proof
  assume "\<exists>n \<le> length s. drop n s = v"
  then show "suffix v s" using suffix_drop by blast
next
  assume "suffix v s"
  then obtain u where "s = u @ v" by (auto simp: suffix_def)
  then show "\<exists>n \<le> length s. drop n s = v" by (intro exI[of _ "length u"]) simp
qed

text \<open>\<open>/w$/i\<close>\<close>

lemma rtest_end_CI: "rtest (litCI w @ [Eos]) s \<longleftrightarrow> suffix (toLowerCase w) (toLowerCase s)"
proof -
  have "rtest (litCI w @ [Eos]) s \<longleftrightarrow>
      (\<exists>n \<le> length (toLowerCase s). drop n (toLowerCase s) = toLowerCase w)"
    unfolding rtest_def rsearch_iff rmatch_litCI_Eos
    by (auto simp: toLowerCase_def drop_map)
  then show ?thesis by (simp only: drop_eq_suffix)
qed

text \<open>\<open>/^.*w$/\<close> and \<open>/^.*w$/i\<close> on a subject without line terminators.\<close>

lemma rtest_dots_end:
  assumes "list_all (in_cls Dot) s"
  shows "rtest ([Bos, Star Dot] @ lit w @ [Eos]) s \<longleftrightarrow> suffix w s"
proof -
  have tw: "takeWhile (in_cls Dot) s = s" using assms by (simp add: list_all_iff)
  have "rtest ([Bos, Star Dot] @ lit w @ [Eos]) s \<longleftrightarrow> (\<exists>n \<le> length s. drop n s = w)"
    unfolding append_Cons append_Nil rtest_Bos rmatch_Star_iff tw rmatch_lit_Eos
    by auto
  then show ?thesis by (simp only: drop_eq_suffix)
qed

lemma rtest_dots_end_CI:
  assumes "list_all (in_cls Dot) s"
  shows "rtest ([Bos, Star Dot] @ litCI w @ [Eos]) s \<longleftrightarrow> suffix (toLowerCase w) (toLowerCase s)"
proof -
  have tw: "takeWhile (in_cls Dot) s = s" using assms by (simp add: list_all_iff)
  have "rtest ([Bos, Star Dot] @ litCI w @ [Eos]) s \<longleftrightarrow>
      (\<exists>n \<le> length (toLowerCase s). drop n (toLowerCase s) = toLowerCase w)"
    unfolding append_Cons append_Nil rtest_Bos rmatch_Star_iff tw rmatch_litCI_Eos
    by (auto simp: toLowerCase_def drop_map)
  then show ?thesis by (simp only: drop_eq_suffix)
qed


lemma rsearch_lit_Eos:
  "rsearch (lit w @ [Eos]) s b =
     (if suffix w s then Some (take (length s - length w) s, [], []) else None)"
proof (induction s arbitrary: b)
  case Nil
  then show ?case by (auto simp: rmatch_lit_Eos)
next
  case (Cons x xs)
  show ?case
  proof (cases "x # xs = w")
    case True
    then show ?thesis by (auto simp: rmatch_lit_Eos)
  next
    case False
    then have s: "suffix w (x # xs) \<longleftrightarrow> suffix w xs" by (auto simp: suffix_Cons)
    show ?thesis
    proof (cases "suffix w xs")
      case True
      then have "length w \<le> length xs" by (rule suffix_length_le)
      then have "take (length (x # xs) - length w) (x # xs) = x # take (length xs - length w) xs"
        by (simp add: Suc_diff_le)
      with True False s Cons.IH[of False] show ?thesis by (simp add: rmatch_lit_Eos)
    next
      case f: False
      with False s Cons.IH[of False] show ?thesis by (simp add: rmatch_lit_Eos)
    qed
  qed
qed

lemma replaceFirst_trailing: "replaceFirst (lit w @ [Eos]) v s = replaceTrailing w v s"
  by (simp add: replaceFirst_def rsearch_lit_Eos replaceTrailing_def endsWith_def)

section \<open>Property type names: properties\<close>

lemma toUpperChar_other: "c \<notin> set lowerChars \<Longrightarrow> toUpperChar c = c"
proof -
  assume a: "c \<notin> set lowerChars"
  have "length lowerChars = length upperChars" by (simp add: lowerChars_def upperChars_def)
  then have "map_of (zip lowerChars upperChars) c = None"
    using a by (simp add: map_of_zip_is_None)
  then show ?thesis by (simp add: toUpperChar_def)
qed

lemma upper_not_lower: "c \<in> set upperChars \<Longrightarrow> c \<notin> set lowerChars"
proof -
  have "list_all (\<lambda>c. c \<notin> set lowerChars) upperChars" by code_simp
  then show "c \<in> set upperChars \<Longrightarrow> c \<notin> set lowerChars" by (simp add: list_all_iff)
qed

lemma toUpperChar_upper: "c \<in> set upperChars \<Longrightarrow> toUpperChar c = c"
  by (simp add: toUpperChar_other upper_not_lower)

lemma capitalize_upper: "s \<noteq> [] \<Longrightarrow> hd s \<in> set upperChars \<Longrightarrow> capitalize s = s"
  by (cases s) (simp_all add: capitalize_def toUpperChar_upper)

lemma capitalize_append: "cur \<noteq> [] \<Longrightarrow> capitalize (cur @ s) = capitalize cur @ s"
  by (cases cur) (simp_all add: capitalize_def)

lemma rmatch_Look_upper:
  "rmatch [Look [C (OneOf upperChars)]] (x # xs) b [] [] =
     (if x \<in> set upperChars then Some (x # xs, []) else None)"
  by simp

lemma splitLoop_capitalize:
  "concat (map capitalize (splitLoop [Look [C (OneOf upperChars)]] s cur b)) = capitalize (cur @ s)"
proof (induction s arbitrary: cur b)
  case Nil
  then show ?case by simp
next
  case (Cons x xs)
  show ?case
  proof (cases "x \<in> set upperChars")
    case False
    with Cons.IH[of "cur @ [x]" False] show ?thesis by simp
  next
    case True
    show ?thesis
    proof (cases "cur = []")
      case c: True
      with True Cons.IH[of "[x]" False] show ?thesis by simp
    next
      case c: False
      have "capitalize (x # xs) = x # xs"
        using True by (simp add: capitalize_upper)
      with True c Cons.IH[of "[x]" False] show ?thesis
        by (simp add: capitalize_append)
    qed
  qed
qed

lemma replaceAllBy_same:
  "replaceAllBy [Open, C (OneOf lowerChars), Close, Open, C (OneOf upperChars), Close] concat s b = s"
proof (induction s arbitrary: b rule: length_induct)
  case (1 s)
  show ?case
  proof (cases s)
    case Nil
    then show ?thesis by simp
  next
    case (Cons x xs)
    show ?thesis
    proof (cases xs)
      case Nil
      with Cons show ?thesis by simp
    next
      case c2: (Cons y ys)
      have "length ys < length s" using Cons c2 by simp
      with 1 have a: "\<And>b. replaceAllBy [Open, C (OneOf lowerChars), Close, Open, C (OneOf upperChars), Close] concat ys b = ys"
        by blast
      have "length xs < length s" using Cons by simp
      with 1 have b: "\<And>b. replaceAllBy [Open, C (OneOf lowerChars), Close, Open, C (OneOf upperChars), Close] concat xs b = xs"
        by blast
      show ?thesis using a b[unfolded c2] unfolding Cons c2 by simp
    qed
  qed
qed

lemma toPascalCase_capitalize: "toPascalCase s = capitalize s"
proof -
  have p: "toPascalCase s = concat (map capitalize (jsSplit [Look [C (OneOf upperChars)]] s))"
    by (simp only: toPascalCase_def replaceAllBy_same)
  show ?thesis
  proof (cases "s = []")
    case True
    show ?thesis unfolding p by (simp add: True jsSplit_def capitalize_def)
  next
    case False
    then have "jsSplit [Look [C (OneOf upperChars)]] s
        = splitLoop [Look [C (OneOf upperChars)]] s [] True"
      by (simp only: jsSplit_def if_False)
    then show ?thesis
      using splitLoop_capitalize[of s "[]" True] by (simp only: p append_Nil)
  qed
qed

lemma rtest_starts_upper:
  "rtest [Bos, C (OneOf upperChars)] p \<longleftrightarrow> p \<noteq> [] \<and> hd p \<in> set upperChars"
  by (cases p) (simp_all add: rtest_Bos)

lemma rtest_numeric: "rtest ([Bos] @ rplus Digit @ [Eos]) p \<longleftrightarrow> numericName p"
  by (cases p) (auto simp: rtest_Bos rplus_def rmatch_Star_Eos numericName_def list_all_iff)

lemma suffix_includesStr: "suffix w s \<Longrightarrow> includesStr s w"
proof (induction s)
  case Nil
  then show ?case by simp
next
  case (Cons x xs)
  then show ?case by (auto simp: suffix_Cons)
qed

lemma toLowerChar_toUpperChar: "toLowerChar (toUpperChar c) = toLowerChar c"
  by (simp add: toLowerChar_def toUpperChar_def lowerChars_def upperChars_def)

lemma toLowerCase_capitalize: "toLowerCase (capitalize s) = toLowerCase s"
  by (cases s) (simp_all add: capitalize_def toLowerCase_def toLowerChar_toUpperChar)

lemma trailing_Id_includes:
  assumes "endsWith (capitalize p) ''Id''"
  shows "includesStr (toLowerCase p) ''id''"
proof -
  have "suffix (toLowerCase ''Id'') (toLowerCase (capitalize p))"
    using assms unfolding endsWith_def toLowerCase_def by (rule map_mono_suffix)
  moreover have "toLowerCase ''Id'' = ''id''" by code_simp
  ultimately show ?thesis by (simp add: toLowerCase_capitalize suffix_includesStr)
qed

lemma generatePropertyTypeName_cases:
  "generatePropertyTypeName p =
     (if p \<noteq> [] \<and> hd p \<in> set upperChars then p
      else if numericName p then ''AccountInfo''
      else if booleanPrefixed p then capitalize p
      else if includesStr (toLowerCase p) ''url'' then replaceTrailing ''Url'' ''URL'' (capitalize p)
      else if includesStr (toLowerCase p) ''id'' then replaceTrailing ''Id'' ''ID'' (capitalize p)
      else capitalize p)"
  unfolding generatePropertyTypeName_def rtest_starts_upper Let_def rtest_numeric
    toPascalCase_capitalize replaceFirst_trailing booleanPrefixed_def
  by (simp only: if_cancel)

lemma generatePropertyTypeName_amended: "generatePropertyTypeName p = amended_T p"
proof -
  have noid: "\<not> includesStr (toLowerCase p) ''id'' \<Longrightarrow>
      replaceTrailing ''Id'' ''ID'' (capitalize p) = capitalize p"
    using trailing_Id_includes[of p] by (auto simp: replaceTrailing_def)
  show ?thesis
  proof (cases "includesStr (toLowerCase p) ''id''")
    case True
    then show ?thesis by (simp only: generatePropertyTypeName_cases amended_T_def if_True)
  next
    case False
    show ?thesis
      by (simp only: generatePropertyTypeName_cases amended_T_def False if_False noid[OF False])
  qed
qed

section \<open>Relevance filter: properties\<close>

lemma word_no_terminator: "list_all (in_cls Word) p \<Longrightarrow> list_all (in_cls Dot) p"
proof -
  have "list_all (in_cls Dot) (lowerChars @ upperChars @ digitChars @ ''_'')" by code_simp
  then have "\<forall>c \<in> set (lowerChars @ upperChars @ digitChars @ ''_''). in_cls Dot c"
    by (simp only: list_all_iff)
  then have "\<And>c. in_cls Word c \<Longrightarrow> in_cls Dot c" by (metis in_cls.simps(5))
  then show "list_all (in_cls Word) p \<Longrightarrow> list_all (in_cls Dot) p"
    by (simp add: list_all_iff)
qed

lemma lower_constants:
  "toLowerCase ''id'' = ''id''" "toLowerCase ''Url'' = ''url''" "toLowerCase ''Count'' = ''count''"
  "toLowerCase ''description'' = ''description''" "toLowerCase ''content'' = ''content''"
  "toLowerCase ''message'' = ''message''" "toLowerCase ''code'' = ''code''"
  "toLowerCase ''data'' = ''data''" "toLowerCase ''format'' = ''format''"
  "toLowerCase ''https'' = ''https''"
  by code_simp+

lemma skipPatterns_skippedName:
  assumes "list_all (in_cls Word) p"
  shows "list_ex (\<lambda>pattern. rtest pattern p) skipPatterns \<longleftrightarrow> skippedName p"
proof -
  note d = word_no_terminator[OF assms]
  show ?thesis
    unfolding skipPatterns_def list_ex_Nil_iff list_ex_Cons_iff rtest_whole_CI rtest_dots_end[OF d]
      rtest_dots_end_CI[OF d] lower_constants skippedName_def endsWith_def
    by auto
qed

lemma isPropertyWorthExtracting_iff:
  assumes "list_all (in_cls Word) p"
  shows "isPropertyWorthExtracting p t \<longleftrightarrow> \<not> skippedName p \<or> isEnumUnion t"
  by (simp add: isPropertyWorthExtracting_def skipPatterns_skippedName[OF assms])

lemma typeish_not_skipped:
  assumes e: "e \<in> set [''type'', ''status'', ''state'', ''mode'']"
    and s: "suffix e (toLowerCase p)"
  shows "\<not> skippedName p"
proof
  assume k: "skippedName p"
  let ?ws = "[''id'', ''description'', ''content'', ''message'', ''code'', ''data'',
              ''format'', ''https'', ''url'', ''count'']"
  have "suffix ''Id'' p \<Longrightarrow> suffix ''id'' (toLowerCase p)"
    using map_mono_suffix[of "''Id''" p toLowerChar] lower_constants(1)
    by (simp add: toLowerCase_def toLowerChar_def upperChars_def lowerChars_def)
  with k obtain w where w: "w \<in> set ?ws" "suffix w (toLowerCase p)"
    unfolding skippedName_def endsWith_def by auto
  from s w(2) have "suffix e w \<or> suffix w e" using suffix_same_cases by blast
  moreover have "list_all (\<lambda>e. list_all (\<lambda>w. \<not> suffix e w \<and> \<not> suffix w e) ?ws)
      [''type'', ''status'', ''state'', ''mode'']"
    by code_simp
  ultimately show False using e w(1) unfolding list_all_iff by blast
qed

lemma typeish_kept:
  assumes "list_all (in_cls Word) p"
    and "endsWith p ''Type'' \<or> endsWith p ''Status'' \<or> endsWith p ''State'' \<or> endsWith p ''Mode''"
  shows "isPropertyWorthExtracting p t"
proof -
  have c: "toLowerCase ''Type'' = ''type''" "toLowerCase ''Status'' = ''status''"
    "toLowerCase ''State'' = ''state''" "toLowerCase ''Mode'' = ''mode''"
    by code_simp+
  have "\<And>w. suffix w p \<Longrightarrow> suffix (toLowerCase w) (toLowerCase p)"
    unfolding toLowerCase_def by (rule map_mono_suffix)
  with assms(2) c have "\<exists>e \<in> set [''type'', ''status'', ''state'', ''mode'']. suffix e (toLowerCase p)"
    unfolding endsWith_def by fastforce
  then have "\<not> skippedName p" using typeish_not_skipped by blast
  then show ?thesis by (simp add: isPropertyWorthExtracting_iff[OF assms(1)])
qed

lemma pi_name_propertyInfoOf: "pi_name (propertyInfoOf sd m n ty) = n"
  by (simp add: propertyInfoOf_def)

lemma ranking_keeps_names:
  "mset (map pi_name (fst (extractAllProperties body schemaName))) = mset (keptNames body)"
proof -
  have b: "map pi_name (map (\<lambda>(m, n, ty). propertyInfoOf body m n ty) xs)
      = map (\<lambda>(m, n, ty). n) xs" for xs :: "(string \<times> string \<times> string) list"
    by (induction xs) (auto simp: pi_name_propertyInfoOf)
  have a: "mset (map pi_name (sort_key k ys)) = mset (map pi_name ys)"
    for k :: "propertyInfo \<Rightarrow> int" and ys
    by simp
  show ?thesis
    unfolding extractAllProperties_def Let_def keptNames_def fst_conv a b ..
qed

section \<open>Captures\<close>

lemma rmatch_captures_grow: "rmatch r s b os cs = Some (s', cs') \<Longrightarrow> prefix cs cs'"
  by (induction r s b os cs arbitrary: s' cs' rule: rmatch.induct)
    (auto split: option.splits if_splits dest: append_prefixD)

lemma star_capture:
  assumes "list_all (in_cls k) u"
    and "rmatch (Star k # Close # r) s b ((u @ s) # os) cs = Some (s', cs')"
  shows "\<exists>v. list_all (in_cls k) v \<and> prefix (cs @ [v]) cs'"
  using assms
proof (induction s arbitrary: u b)
  case Nil
  then have "rmatch r [] b os (cs @ [u]) = Some (s', cs')" by simp
  then have "prefix (cs @ [u]) cs'" by (rule rmatch_captures_grow)
  with Nil.prems(1) show ?case by blast
next
  case (Cons x xs)
  have here: "rmatch (Close # r) (x # xs) b ((u @ x # xs) # os) cs = Some (s', cs')
      \<Longrightarrow> ?case"
  proof -
    assume "rmatch (Close # r) (x # xs) b ((u @ x # xs) # os) cs = Some (s', cs')"
    then have "rmatch r (x # xs) b os (cs @ [u]) = Some (s', cs')" by simp
    then have "prefix (cs @ [u]) cs'" by (rule rmatch_captures_grow)
    with Cons.prems(1) show ?case by blast
  qed
  show ?case
  proof (cases "in_cls k x")
    case False
    with Cons.prems(2) here show ?thesis by simp
  next
    case True
    show ?thesis
    proof (cases "rmatch (Star k # Close # r) xs False ((u @ x # xs) # os) cs")
      case None
      with True Cons.prems(2) here show ?thesis by simp
    next
      case (Some res)
      with True Cons.prems(2) have "rmatch (Star k # Close # r) xs False (((u @ [x]) @ xs) # os) cs
          = Some (s', cs')" by simp
      moreover have "list_all (in_cls k) (u @ [x])" using Cons.prems(1) True by simp
      ultimately show ?thesis by (rule Cons.IH[rotated])
    qed
  qed
qed

lemma rsearch_rmatch:
  "rsearch r s b = Some (pre, rest, cs) \<Longrightarrow> \<exists>s' b'. rmatch r s' b' [] [] = Some (rest, cs)"
proof (induction s arbitrary: b pre)
  case Nil
  then show ?case by (auto split: option.splits)
next
  case (Cons x xs)
  show ?case
  proof (cases "rmatch r (x # xs) b [] []")
    case None
    with Cons.prems obtain pre' where "rsearch r xs False = Some (pre', rest, cs)"
      by (auto split: option.splits)
    then show ?thesis by (rule Cons.IH)
  next
    case (Some a)
    with Cons.prems show ?thesis by (auto split: option.splits)
  qed
qed

lemma execAll_rmatch:
  "(i, m, cs) \<in> set (execAll r s b i0) \<Longrightarrow> \<exists>s' b' rest. rmatch r s' b' [] [] = Some (rest, cs)"
proof (induction r s b i0 rule: execAll.induct)
  case (1 r s b i0)
  show ?case
  proof (cases "rsearch r s b")
    case None
    with "1.prems" show ?thesis by (simp add: execAll.simps[of r s b i0])
  next
    case (Some a)
    obtain pre rest cs0 where a: "a = (pre, rest, cs0)" by (cases a)
    have here: "\<exists>s' b'. rmatch r s' b' [] [] = Some (rest, cs0)"
      using Some a rsearch_rmatch by blast
    have e: "execAll r s b i0 =
        (i0 + length pre, take (length s - length pre - length rest) (drop (length pre) s), cs0)
        # (if length rest < length s then execAll r rest False (i0 + (length s - length rest))
           else [])"
      by (subst execAll.simps) (simp add: Some a)
    show ?thesis
    proof (cases "cs = cs0")
      case True
      with here show ?thesis by blast
    next
      case False
      with "1.prems" e have l: "length rest < length s"
        and m: "(i, m, cs) \<in> set (execAll r rest False (i0 + (length s - length rest)))"
        by (auto split: if_splits simp del: execAll.simps)
      from "1.IH"[OF Some a[symmetric] refl l m] show ?thesis .
    qed
  qed
qed

lemma propertyRegex_capture:
  assumes "rmatch propertyRegex s b [] [] = Some (rest, cs)"
  shows "list_all (in_cls Word) (concat (take 1 cs))"
proof -
  obtain R where R: "propertyRegex = Open # C Word # Star Word # Close # R"
    by (simp add: propertyRegex_def rplus_def)
  show ?thesis
  proof (cases s)
    case Nil
    with assms show ?thesis by (simp add: R)
  next
    case (Cons x xs)
    with assms have c: "rmatch (C Word # Star Word # Close # R) (x # xs) b [x # xs] []
        = Some (rest, cs)"
      by (simp add: R)
    then have w: "in_cls Word x"
      by (cases "in_cls Word x") (simp_all del: in_cls.simps)
    with c have m: "rmatch (Star Word # Close # R) xs False (([x] @ xs) # []) [] = Some (rest, cs)"
      by (simp del: in_cls.simps)
    from w have "list_all (in_cls Word) [x]" by (simp del: in_cls.simps)
    from star_capture[OF this m] obtain v where "list_all (in_cls Word) v" "prefix [v] cs"
      by auto
    then show ?thesis by (auto simp: prefix_def)
  qed
qed

lemma propertyMatches_words:
  "list_all (\<lambda>(m, n, ty). list_all (in_cls Word) n) (propertyMatches body)"
proof -
  define E where "E = execAll propertyRegex (removeCommentsFromSchema body) True 0"
  have a: "list_all (in_cls Word) (concat (take 1 cs))" if "(i, m, cs) \<in> set E" for i m cs
  proof -
    from execAll_rmatch[OF that[unfolded E_def]] obtain s' b' rest
      where "rmatch propertyRegex s' b' [] [] = Some (rest, cs)" by blast
    then show ?thesis by (rule propertyRegex_capture)
  qed
  have "\<forall>e \<in> set E. list_all (in_cls Word) (concat (take 1 (snd (snd e))))"
  proof
    fix e assume "e \<in> set E"
    then have "(fst e, fst (snd e), snd (snd e)) \<in> set E" by simp
    then show "list_all (in_cls Word) (concat (take 1 (snd (snd e))))" by (rule a)
  qed
  then have "list_all (\<lambda>(m, n, ty). list_all (in_cls Word) n)
      (map (\<lambda>(i, m, cs). (m, concat (take 1 cs), trim (concat (take 1 (drop 1 cs))))) E)"
    unfolding list_all_iff by (auto simp del: in_cls.simps simp: case_prod_beta)
  then show ?thesis unfolding propertyMatches_def E_def .
qed

section \<open>Claims on the relevance filter and the type names\<close>

text \<open>
  C6, as stated, fails: the filter also skips the name \<open>https\<close>, and it compares all
  but the \<open>Id\<close> ending without regard to letter case, so it skips \<open>account\<close> (which ends
  in \<open>count\<close>); neither is a name of the claim's list, and the type \<open>string\<close> is no
  union of string literals.
\<close>

theorem C6_counterexample:
  "\<not> isPropertyWorthExtracting ''https'' ''string''
   \<and> \<not> claimed_skippedName ''https''
   \<and> \<not> isPropertyWorthExtracting ''account'' ''string''
   \<and> \<not> claimed_skippedName ''account''
   \<and> \<not> isEnumUnion ''string''"
  by code_simp

text \<open>
  C6 (amended). The property names the walker meets are words (\<open>\w+\<close>). For a word \<open>p\<close>
  and a type text \<open>t\<close> the filter skips the property exactly when the name is, in any
  letter case, \<open>id\<close>, \<open>description\<close>, \<open>content\<close>, \<open>message\<close>, \<open>code\<close>, \<open>data\<close>, \<open>format\<close>
  or \<open>https\<close>, or ends in \<open>Id\<close>, or ends in \<open>url\<close> or \<open>count\<close> in any letter case,
  unless the type text is a union: it has a \<open>|\<close>, has neither \<open>null\<close> nor
  \<open>undefined\<close> in it and holds two or more single-quoted string literals; then it is
  kept. Names ending in \<open>Type\<close>, \<open>Status\<close>, \<open>State\<close> or \<open>Mode\<close> are always kept. The
  priority ranking only reorders: the names of the properties returned are, as a
  multiset, the names that passed the filter.
\<close>

theorem C6_relevance_filter:
  "list_all (\<lambda>(m, n, ty). list_all (in_cls Word) n) (propertyMatches body)
   \<and> (list_all (in_cls Word) p \<longrightarrow>
        (isPropertyWorthExtracting p t \<longleftrightarrow> \<not> skippedName p \<or> isEnumUnion t))
   \<and> (list_all (in_cls Word) p
        \<and> (endsWith p ''Type'' \<or> endsWith p ''Status'' \<or> endsWith p ''State''
            \<or> endsWith p ''Mode'')
        \<longrightarrow> isPropertyWorthExtracting p t)
   \<and> mset (map pi_name (fst (extractAllProperties body schemaName))) = mset (keptNames body)"
  using propertyMatches_words[of body] isPropertyWorthExtracting_iff[of p t]
    typeish_kept[of p t] ranking_keeps_names[of body schemaName]
  by blast

theorem C6_relevance_filter_witness:
  "list_all (in_cls Word) ''imageUrl''
   \<and> skippedName ''imageUrl''
   \<and> \<not> isPropertyWorthExtracting ''imageUrl'' ''string''
   \<and> isPropertyWorthExtracting ''imageUrl'' ([SQ] @ ''small' | 'large'' @ [SQ])
   \<and> isPropertyWorthExtracting ''tournamentType'' ''string''
   \<and> map pi_name (fst (extractAllProperties
        (''id: number; owner: components['schemas']['User']; state: 'on' | 'off';'') ''Match''))
      = [''state'', ''owner'']"
proof -
  have w: "list_all (in_cls Word) ''imageUrl''" "list_all (in_cls Word) ''tournamentType''"
    "endsWith ''tournamentType'' ''Type''" by code_simp+
  have s: "skippedName ''imageUrl''" "\<not> isEnumUnion ''string''"
    "isEnumUnion ([SQ] @ ''small' | 'large'' @ [SQ])" by code_simp+
  have e: "map pi_name (fst (extractAllProperties
        (''id: number; owner: components['schemas']['User']; state: 'on' | 'off';'') ''Match''))
      = [''state'', ''owner'']" by code_simp
  from C6_relevance_filter[of "[]" "''imageUrl''" "''string''" "[]"]
    C6_relevance_filter[of "[]" "''imageUrl''" "[SQ] @ ''small' | 'large'' @ [SQ]" "[]"]
    C6_relevance_filter[of "[]" "''tournamentType''" "''string''" "[]"] w s e
  show ?thesis by blast
qed

text \<open>
  C5, as stated, fails. A name that contains \<open>url\<close> takes the \<open>Url\<close> rule only, so a
  trailing \<open>Id\<close> stays: \<open>thumbnailUrlId\<close> (kept by the filter when its type is a union of
  string literals) becomes \<open>ThumbnailUrlId\<close>, not \<open>ThumbnailUrlID\<close>. A name that already
  starts with a capital letter is returned as it is: \<open>ProviderId\<close> stays \<open>ProviderId\<close>.
\<close>

theorem C5_counterexample:
  "isPropertyWorthExtracting ''thumbnailUrlId'' ([SQ] @ ''a' | 'b'' @ [SQ])
   \<and> generateUniqueTypeName ''Media'' ''thumbnailUrlId'' = ''Props_Media_ThumbnailUrlId''
   \<and> claimed_T ''thumbnailUrlId'' = ''ThumbnailUrlID''
   \<and> isPropertyWorthExtracting ''ProviderId'' ([SQ] @ ''a' | 'b'' @ [SQ])
   \<and> generateUniqueTypeName ''Account'' ''ProviderId'' = ''Props_Account_ProviderId''
   \<and> claimed_T ''ProviderId'' = ''ProviderID''"
  by code_simp

text \<open>
  C5 (amended). For every schema name \<open>s\<close> and property name \<open>p\<close> the derived alias is
  \<open>Props_{s}_{T(p)}\<close>, where \<open>T(p)\<close> is \<open>p\<close> itself if \<open>p\<close> starts with a capital letter;
  otherwise the fixed fallback \<open>AccountInfo\<close> if \<open>p\<close> is purely numeric; otherwise \<open>p\<close>
  with its first letter capitalised, and then: unchanged for the prefixes \<open>is\<close>, \<open>has\<close>,
  \<open>allow\<close>, \<open>hide\<close>; else a trailing \<open>Url\<close> becomes \<open>URL\<close> if the name has \<open>url\<close> in it
  in any letter case; else a trailing \<open>Id\<close> becomes \<open>ID\<close>. \<open>tournamentType\<close> on
  \<open>Match\<close> gives \<open>Props_Match_TournamentType\<close>, and every purely numeric name gives the
  same fallback, whatever its digits.
\<close>

theorem C5_type_names:
  "generateUniqueTypeName s p = ''Props_'' @ s @ ''_'' @ amended_T p
   \<and> generateUniqueTypeName ''Match'' ''tournamentType'' = ''Props_Match_TournamentType''
   \<and> (numericName p \<longrightarrow> generateUniqueTypeName s p = ''Props_'' @ s @ ''_AccountInfo'')"
proof -
  have g: "generateUniqueTypeName s p = ''Props_'' @ s @ ''_'' @ amended_T p" for s p
    by (simp add: generateUniqueTypeName_def generatePropertyTypeName_amended)
  have t: "amended_T ''tournamentType'' = ''TournamentType''" by code_simp
  have "list_all (\<lambda>c. c \<notin> set upperChars) digitChars" by code_simp
  then have d: "\<And>c. c \<in> set digitChars \<Longrightarrow> c \<notin> set upperChars"
    by (simp add: list_all_iff)
  have n: "numericName p \<longrightarrow> amended_T p = ''AccountInfo''"
  proof
    assume a: "numericName p"
    then have "hd p \<in> set digitChars" by (cases p) (auto simp: numericName_def)
    with d a show "amended_T p = ''AccountInfo''" by (simp add: amended_T_def)
  qed
  show ?thesis using n by (simp add: g t)
qed

theorem C5_type_names_witness:
  "numericName ''2024''
   \<and> generateUniqueTypeName ''followStatus'' ''2024'' = ''Props_followStatus_AccountInfo''
   \<and> generateUniqueTypeName ''followStatus'' ''0'' = ''Props_followStatus_AccountInfo''
   \<and> generateUniqueTypeName ''Match'' ''imageUrl'' = ''Props_Match_ImageURL''"
proof -
  have n: "numericName ''2024''" "numericName ''0''" by code_simp+
  have a: "amended_T ''imageUrl'' = ''ImageURL''" by code_simp
  from C5_type_names[of "''followStatus''" "''2024''"] n(1)
  have 1: "generateUniqueTypeName ''followStatus'' ''2024'' = ''Props_'' @ ''followStatus'' @ ''_AccountInfo''"
    by blast
  from C5_type_names[of "''followStatus''" "''0''"] n(2)
  have 2: "generateUniqueTypeName ''followStatus'' ''0'' = ''Props_'' @ ''followStatus'' @ ''_AccountInfo''"
    by blast
  from C5_type_names[of "''Match''" "''imageUrl''"]
  have 3: "generateUniqueTypeName ''Match'' ''imageUrl'' = ''Props_'' @ ''Match'' @ ''_'' @ amended_T ''imageUrl''"
    by blast
  from n(1) 1 2 3 show ?thesis by (simp add: a)
qed

section \<open>Identifiers: the cleaning\<close>

lemma replaceAll_Nil: "replaceAll r repl [] b = []"
  by (subst replaceAll.simps) simp

lemma replaceAll_Cons:
  "replaceAll r repl (x # xs) b =
     (case rmatch r (x # xs) b [] [] of
        Some (rest, cs) \<Rightarrow>
          if length rest < length (x # xs) then repl @ replaceAll r repl rest False
          else x # replaceAll r repl xs False
      | None \<Rightarrow> x # replaceAll r repl xs False)"
  by (subst replaceAll.simps) simp

lemma rmatch_Star_only: "rmatch [Star k] s b os cs = Some (dropWhile (in_cls k) s, cs)"
  by (induction s arbitrary: b) (simp_all del: in_cls.simps)

lemma rmatch_Star_until:
  "rmatch [Star (NoneOf ''}''), C (Is (CHR ''}''))] s b os cs =
     (case dropWhile (\<lambda>x. x \<noteq> CHR ''}'') s of [] \<Rightarrow> None | y # ys \<Rightarrow> Some (ys, cs))"
proof (induction s arbitrary: b)
  case Nil
  then show ?case by simp
next
  case (Cons x xs)
  show ?case
  proof (cases "x = CHR ''}''")
    case True
    then show ?thesis by simp
  next
    case False
    then show ?thesis using Cons[of False] by (simp split: list.splits)
  qed
qed

lemma case_tl:
  "(case d of [] \<Rightarrow> None | z # zs \<Rightarrow> Some (zs, c)) = (if d \<noteq> [] then Some (tl d, c) else None)"
  by (cases d) simp_all

lemma rmatch_placeholder:
  "rmatch (lit ''{'' @ rplus (NoneOf ''}'') @ lit ''}'') (x # xs) b [] [] =
     (if x = CHR ''{'' \<and> takeWhile (\<lambda>x. x \<noteq> CHR ''}'') xs \<noteq> []
         \<and> dropWhile (\<lambda>x. x \<noteq> CHR ''}'') xs \<noteq> []
      then Some (tl (dropWhile (\<lambda>x. x \<noteq> CHR ''}'') xs), []) else None)"
proof -
  define r where "r = [Star (NoneOf ''}''), C (Is (CHR ''}''))]"
  have p: "lit ''{'' @ rplus (NoneOf ''}'') @ lit ''}'' = C (Is (CHR ''{'')) # C (NoneOf ''}'') # r"
    by (simp add: lit_def rplus_def r_def)
  have u: "rmatch r s False [] [] =
     (case dropWhile (\<lambda>x. x \<noteq> CHR ''}'') s of [] \<Rightarrow> None | z # zs \<Rightarrow> Some (zs, []))" for s
    unfolding r_def by (rule rmatch_Star_until)
  have s1: "rmatch (C (Is (CHR ''{'')) # C (NoneOf ''}'') # r) (x # xs) b [] [] =
      (if x = CHR ''{'' then rmatch (C (NoneOf ''}'') # r) xs False [] [] else None)"
    by simp
  show ?thesis
  proof (cases xs)
    case Nil
    then show ?thesis unfolding p s1 by simp
  next
    case (Cons y ys)
    have s2: "rmatch (C (NoneOf ''}'') # r) (y # ys) False [] [] =
        (if y \<noteq> CHR ''}'' then rmatch r ys False [] [] else None)"
      by simp
    show ?thesis
    proof (cases "y = CHR ''}''")
      case True
      then show ?thesis unfolding p s1 Cons s2 by simp
    next
      case False
      then show ?thesis
        unfolding p s1 Cons s2
        by (simp add: u case_tl)
    qed
  qed
qed

lemma replaceAll_placeholders:
  "replaceAll (lit ''{'' @ rplus (NoneOf ''}'') @ lit ''}'') ''ID'' s b = placeholders s"
proof (induction s arbitrary: b rule: length_induct)
  case (1 s)
  show ?case
  proof (cases s)
    case Nil
    then show ?thesis by (simp add: replaceAll_Nil del: replaceAll.simps)
  next
    case (Cons x xs)
    have l: "length (tl (dropWhile (\<lambda>x. x \<noteq> CHR ''}'') xs)) < length s"
      using length_dropWhile_le[of "\<lambda>x. x \<noteq> CHR ''}''" xs] Cons by simp
    have a: "replaceAll (lit ''{'' @ rplus (NoneOf ''}'') @ lit ''}'') ''ID''
          (tl (dropWhile (\<lambda>x. x \<noteq> CHR ''}'') xs)) False
        = placeholders (tl (dropWhile (\<lambda>x. x \<noteq> CHR ''}'') xs))"
      using 1 l by blast
    have c: "replaceAll (lit ''{'' @ rplus (NoneOf ''}'') @ lit ''}'') ''ID'' xs False
        = placeholders xs"
      using 1 Cons by simp
    show ?thesis
      unfolding Cons replaceAll_Cons rmatch_placeholder
      using l a c Cons by (simp del: replaceAll.simps)
  qed
qed

lemma replaceAll_underscored: "replaceAll [C (NotCls Word)] ''_'' s b = underscored s"
proof (induction s arbitrary: b)
  case Nil
  then show ?case by (simp add: underscored_def replaceAll_Nil del: replaceAll.simps)
next
  case (Cons x xs)
  have "replaceAll [C (NotCls Word)] ''_'' xs False = underscored xs" by (rule Cons)
  then show ?case
    unfolding replaceAll_Cons
    by (simp add: underscored_def isWordChar_def del: replaceAll.simps)
qed

lemma collapse_run:
  "collapse (CHR ''_'' # s) = CHR ''_'' # collapse (dropWhile (\<lambda>c. c = CHR ''_'') s)"
proof (induction s)
  case Nil
  then show ?case by simp
next
  case (Cons a s)
  then show ?case by (cases s) auto
qed

lemma collapse_other: "x \<noteq> CHR ''_'' \<Longrightarrow> collapse (x # s) = x # collapse s"
  by (cases s) auto

lemma rmatch_run:
  "rmatch (rplus (Is (CHR ''_''))) (x # xs) b [] [] =
     (if x = CHR ''_'' then Some (dropWhile (\<lambda>c. c = CHR ''_'') xs, []) else None)"
proof -
  have "in_cls (Is (CHR ''_'')) = (\<lambda>c. c = CHR ''_'')" by (rule ext) simp
  then show ?thesis by (simp add: rplus_def rmatch_Star_only)
qed

lemma replaceAll_collapse: "replaceAll (rplus (Is (CHR ''_''))) ''_'' s b = collapse s"
proof (induction s arbitrary: b rule: length_induct)
  case (1 s)
  show ?case
  proof (cases s)
    case Nil
    then show ?thesis by (simp add: replaceAll_Nil del: replaceAll.simps)
  next
    case (Cons x xs)
    have l: "length (dropWhile (\<lambda>c. c = CHR ''_'') xs) < length s"
      using length_dropWhile_le[of "\<lambda>c. c = CHR ''_''" xs] Cons by simp
    have a: "replaceAll (rplus (Is (CHR ''_''))) ''_'' (dropWhile (\<lambda>c. c = CHR ''_'') xs) False
        = collapse (dropWhile (\<lambda>c. c = CHR ''_'') xs)"
      using 1 l by blast
    have c: "replaceAll (rplus (Is (CHR ''_''))) ''_'' xs False = collapse xs"
      using 1 Cons by simp
    show ?thesis
      unfolding Cons replaceAll_Cons rmatch_run
      using l a c Cons by (simp add: collapse_run collapse_other del: replaceAll.simps)
  qed
qed

lemma rmatch_strip:
  "rmatch [Alt [Bos, C (Is (CHR ''_''))] [C (Is (CHR ''_'')), Eos]] (x # xs) b [] [] =
     (if x = CHR ''_'' \<and> b then Some (xs, [])
      else if x = CHR ''_'' \<and> xs = [] then Some ([], [])
      else None)"
  by (cases xs) simp_all

lemma replaceAll_strip_inner:
  "replaceAll [Alt [Bos, C (Is (CHR ''_''))] [C (Is (CHR ''_'')), Eos]] [] s False =
     (if s \<noteq> [] \<and> last s = CHR ''_'' then butlast s else s)"
proof (induction s)
  case Nil
  then show ?case by (simp add: replaceAll_Nil del: replaceAll.simps)
next
  case (Cons x xs)
  show ?case
    unfolding replaceAll_Cons rmatch_strip Cons
    by (simp add: replaceAll_Nil del: replaceAll.simps)
qed

lemma replaceAll_stripEnds:
  "replaceAll [Alt [Bos, C (Is (CHR ''_''))] [C (Is (CHR ''_'')), Eos]] [] s True = stripEnds s"
proof (cases s)
  case Nil
  then show ?thesis by (simp add: stripEnds_def replaceAll_Nil del: replaceAll.simps)
next
  case (Cons x xs)
  show ?thesis
    unfolding Cons replaceAll_Cons rmatch_strip replaceAll_strip_inner
    by (simp add: stripEnds_def Let_def del: replaceAll.simps)
qed

lemma cleanPath_normalForm: "cleanPath path = normalForm path"
  unfolding cleanPath_def normalForm_def
  by (simp only: replaceAll_placeholders replaceAll_underscored replaceAll_collapse
      replaceAll_stripEnds)

section \<open>Identifiers: the names\<close>

lemma until_underscore:
  assumes "CHR ''_'' \<notin> set a" "CHR ''_'' \<notin> set b" "a @ CHR ''_'' # x = b @ CHR ''_'' # y"
  shows "a = b"
proof -
  have "takeWhile (\<lambda>c. c \<noteq> CHR ''_'') (a @ CHR ''_'' # x) = a"
    using assms(1) by (auto simp: takeWhile_tail)
  moreover have "takeWhile (\<lambda>c. c \<noteq> CHR ''_'') (b @ CHR ''_'' # y) = b"
    using assms(2) by (auto simp: takeWhile_tail)
  ultimately show ?thesis using assms(3) by simp
qed

lemma constants_of_methods:
  assumes "m \<in> set httpMethods" "m' \<in> set httpMethods" "m \<noteq> m'"
  shows "generateConstantName p m \<noteq> generateConstantName q m'"
proof
  assume e: "generateConstantName p m = generateConstantName q m'"
  have "\<forall>m \<in> set httpMethods. CHR ''_'' \<notin> set (toUpperCase m)" by code_simp
  with assms have u: "CHR ''_'' \<notin> set (toUpperCase m)" "CHR ''_'' \<notin> set (toUpperCase m')"
    by blast+
  have "\<forall>m \<in> set httpMethods. \<forall>m' \<in> set httpMethods. m \<noteq> m' \<longrightarrow> toUpperCase m \<noteq> toUpperCase m'"
    by code_simp
  with assms have d: "toUpperCase m \<noteq> toUpperCase m'" by blast
  from e have "toUpperCase m @ CHR ''_'' # toUpperCase (cleanPath p)
      = toUpperCase m' @ CHR ''_'' # toUpperCase (cleanPath q)"
    by (simp add: generateConstantName_def)
  from until_underscore[OF u this] d show False by contradiction
qed

lemma functions_of_methods:
  assumes "m \<in> set httpMethods" "m' \<in> set httpMethods" "m \<noteq> m'"
  shows "generateFunctionName defaultFunctionNaming p m
      \<noteq> generateFunctionName defaultFunctionNaming q m'"
proof
  assume e: "generateFunctionName defaultFunctionNaming p m
      = generateFunctionName defaultFunctionNaming q m'"
  have "\<forall>m \<in> set httpMethods. methodPrefix defaultFunctionNaming m \<noteq> []" by code_simp
  with assms have n: "methodPrefix defaultFunctionNaming m \<noteq> []"
    "methodPrefix defaultFunctionNaming m' \<noteq> []" by blast+
  have "\<forall>m \<in> set httpMethods. \<forall>m' \<in> set httpMethods. m \<noteq> m' \<longrightarrow>
      hd (methodPrefix defaultFunctionNaming m) \<noteq> hd (methodPrefix defaultFunctionNaming m')"
    by code_simp
  with assms have d: "hd (methodPrefix defaultFunctionNaming m)
      \<noteq> hd (methodPrefix defaultFunctionNaming m')" by blast
  from e have "hd (generateFunctionName defaultFunctionNaming p m)
      = hd (generateFunctionName defaultFunctionNaming q m')" by simp
  with n have "hd (methodPrefix defaultFunctionNaming m)
      = hd (methodPrefix defaultFunctionNaming m')"
    by (simp add: generateFunctionName_def)
  with d show False by contradiction
qed

lemma capitalize_camelJoin:
  "\<forall>w \<in> set ws. w \<noteq> [] \<Longrightarrow> capitalize (camelJoin ws) = concat (map capitalize ws)"
proof (cases ws)
  case Nil
  then show ?thesis by (simp add: camelJoin_def capitalize_def)
next
  case (Cons w rest)
  assume "\<forall>w \<in> set ws. w \<noteq> []"
  with Cons have "w \<noteq> []" by simp
  then show ?thesis using Cons by (simp add: camelJoin_def capitalize_append)
qed

lemma generateFunctionName_words:
  "generateFunctionName naming p m = methodPrefix naming m @ pascalWords (normalForm p)"
  by (simp add: generateFunctionName_def pascalWords_def capitalize_camelJoin cleanPath_normalForm)

lemma generateConstantName_normalForm:
  "generateConstantName p m = toUpperCase m @ ''_'' @ toUpperCase (normalForm p)"
  by (simp add: generateConstantName_def cleanPath_normalForm)

lemma functions_of_prefixes:
  assumes "\<not> prefix (methodPrefix naming m) (methodPrefix naming m')"
    and "\<not> prefix (methodPrefix naming m') (methodPrefix naming m)"
  shows "generateFunctionName naming p m \<noteq> generateFunctionName naming q m'"
proof
  assume e: "generateFunctionName naming p m = generateFunctionName naming q m'"
  have "prefix (methodPrefix naming m) (generateFunctionName naming p m)"
    "prefix (methodPrefix naming m') (generateFunctionName naming q m')"
    by (simp_all add: generateFunctionName_words)
  with e have "prefix (methodPrefix naming m) (methodPrefix naming m')
      \<or> prefix (methodPrefix naming m') (methodPrefix naming m)"
    using prefix_same_cases by metis
  with assms show False by blast
qed

section \<open>Claim on the identifiers\<close>

text \<open>
  C7, as stated, fails: nothing in the naming functions keeps the identifiers of two
  paths apart. The static path \<open>/users/id\<close> and the dynamic path \<open>/users/{id}\<close> are
  two operations of one interface description under GET, and get the same wrapper name
  and the same constant name.
\<close>

theorem C7_counterexample:
  "(''/users/id'', ''get'') \<noteq> (''/users/{id}'', ''get'')
   \<and> generateFunctionName defaultFunctionNaming ''/users/id'' ''get'' = ''fetchUsersId''
   \<and> generateFunctionName defaultFunctionNaming ''/users/{id}'' ''get'' = ''fetchUsersId''
   \<and> generateConstantName ''/users/id'' ''get'' = ''GET_USERS_ID''
   \<and> generateConstantName ''/users/{id}'' ''get'' = ''GET_USERS_ID''"
  by code_simp

text \<open>
  C7 (amended). Identifier generation is deterministic: \<open>generateFunctionName\<close> and
  \<open>generateConstantName\<close> are functions of the path, the method and the prefix table.
  Operations of different HTTP methods never share an identifier: for two different
  methods among get, post, put, patch and delete, and any two paths, the constant names
  differ, and so do the wrapper function names under the default prefixes (and under
  every prefix table in which neither method's prefix is the beginning of the other's).
  For one method the identifier depends on the path only through its cleaned form: every
  placeholder \<open>{...}\<close> replaced by \<open>ID\<close>, then every character that is no letter, digit
  or \<open>_\<close> replaced by \<open>_\<close>, then every run of \<open>_\<close> collapsed to one, then a leading and
  a trailing \<open>_\<close> dropped. Two paths get the same constant name exactly when their
  cleaned forms agree up to letter case, and the same wrapper function name exactly when
  the capitalised lower-case words of their cleaned forms, written one after the other,
  agree; two different paths of one method with this property collide.
\<close>

theorem C7_identifiers:
  "cleanPath p = normalForm p
   \<and> (m \<in> set httpMethods \<and> m' \<in> set httpMethods \<and> m \<noteq> m' \<longrightarrow>
        generateConstantName p m \<noteq> generateConstantName q m'
        \<and> generateFunctionName defaultFunctionNaming p m
            \<noteq> generateFunctionName defaultFunctionNaming q m')
   \<and> (\<not> prefix (methodPrefix naming m) (methodPrefix naming m')
        \<and> \<not> prefix (methodPrefix naming m') (methodPrefix naming m) \<longrightarrow>
        generateFunctionName naming p m \<noteq> generateFunctionName naming q m')
   \<and> (generateConstantName p m = generateConstantName q m
        \<longleftrightarrow> toUpperCase (normalForm p) = toUpperCase (normalForm q))
   \<and> (generateFunctionName naming p m = generateFunctionName naming q m
        \<longleftrightarrow> pascalWords (normalForm p) = pascalWords (normalForm q))"
proof -
  have 1: "cleanPath p = normalForm p"
    by (rule cleanPath_normalForm)
  have 2: "m \<in> set httpMethods \<and> m' \<in> set httpMethods \<and> m \<noteq> m' \<longrightarrow>
        generateConstantName p m \<noteq> generateConstantName q m'
        \<and> generateFunctionName defaultFunctionNaming p m
            \<noteq> generateFunctionName defaultFunctionNaming q m'"
    using constants_of_methods[of m m' p q] functions_of_methods[of m m' p q] by blast
  have 3: "\<not> prefix (methodPrefix naming m) (methodPrefix naming m')
        \<and> \<not> prefix (methodPrefix naming m') (methodPrefix naming m) \<longrightarrow>
        generateFunctionName naming p m \<noteq> generateFunctionName naming q m'"
    using functions_of_prefixes[of naming m m' p q] by blast
  have 4: "generateConstantName p m = generateConstantName q m
        \<longleftrightarrow> toUpperCase (normalForm p) = toUpperCase (normalForm q)"
    by (simp add: generateConstantName_normalForm)
  have 5: "generateFunctionName naming p m = generateFunctionName naming q m
        \<longleftrightarrow> pascalWords (normalForm p) = pascalWords (normalForm q)"
    by (simp add: generateFunctionName_words)
  from 1 2 3 4 5 show ?thesis by blast
qed

theorem C7_identifiers_witness:
  "''post'' \<in> set httpMethods \<and> ''put'' \<in> set httpMethods \<and> ''post'' \<noteq> ''put''
   \<and> generateConstantName ''/users'' ''post'' \<noteq> generateConstantName ''/users'' ''put''
   \<and> generateFunctionName defaultFunctionNaming ''/users'' ''post''
       \<noteq> generateFunctionName defaultFunctionNaming ''/users'' ''put''
   \<and> \<not> prefix (methodPrefix serviceStyle ''post'') (methodPrefix serviceStyle ''put'')
   \<and> \<not> prefix (methodPrefix serviceStyle ''put'') (methodPrefix serviceStyle ''post'')
   \<and> generateFunctionName serviceStyle ''/users'' ''post''
       \<noteq> generateFunctionName serviceStyle ''/users'' ''put''
   \<and> cleanPath ''/users/{userId}/order-items'' = ''users_ID_order_items''
   \<and> generateConstantName ''/user-profile'' ''post'' = generateConstantName ''/user/profile'' ''post''
   \<and> generateFunctionName defaultFunctionNaming ''/shop/2'' ''get''
       = generateFunctionName defaultFunctionNaming ''/shop2'' ''get''
   \<and> generateConstantName ''/shop/2'' ''get'' \<noteq> generateConstantName ''/shop2'' ''get''"
proof -
  have h: "''post'' \<in> set httpMethods" "''put'' \<in> set httpMethods" "''post'' \<noteq> ''put''"
    by code_simp+
  have s: "\<not> prefix (methodPrefix serviceStyle ''post'') (methodPrefix serviceStyle ''put'')"
    "\<not> prefix (methodPrefix serviceStyle ''put'') (methodPrefix serviceStyle ''post'')"
    by code_simp+
  have n: "normalForm ''/users/{userId}/order-items'' = ''users_ID_order_items''"
    by code_simp
  have c: "toUpperCase (normalForm ''/user-profile'') = toUpperCase (normalForm ''/user/profile'')"
    "pascalWords (normalForm ''/shop/2'') = pascalWords (normalForm ''/shop2'')"
    "toUpperCase (normalForm ''/shop/2'') \<noteq> toUpperCase (normalForm ''/shop2'')"
    by code_simp+
  from C7_identifiers[of "''/users''" "''post''" "''put''" "''/users''" serviceStyle] h s
  have 1: "generateConstantName ''/users'' ''post'' \<noteq> generateConstantName ''/users'' ''put''
      \<and> generateFunctionName defaultFunctionNaming ''/users'' ''post''
          \<noteq> generateFunctionName defaultFunctionNaming ''/users'' ''put''
      \<and> generateFunctionName serviceStyle ''/users'' ''post''
          \<noteq> generateFunctionName serviceStyle ''/users'' ''put''"
    by blast
  from C7_identifiers[of "''/users/{userId}/order-items''" "''get''" "''get''" "[]" defaultFunctionNaming] n
  have 2: "cleanPath ''/users/{userId}/order-items'' = ''users_ID_order_items''"
    by (simp only:)
  from C7_identifiers[of "''/user-profile''" "''post''" "''post''" "''/user/profile''" defaultFunctionNaming] c(1)
  have 3: "generateConstantName ''/user-profile'' ''post'' = generateConstantName ''/user/profile'' ''post''"
    by blast
  from C7_identifiers[of "''/shop/2''" "''get''" "''get''" "''/shop2''" defaultFunctionNaming] c(2,3)
  have 4: "generateFunctionName defaultFunctionNaming ''/shop/2'' ''get''
       = generateFunctionName defaultFunctionNaming ''/shop2'' ''get''
     \<and> generateConstantName ''/shop/2'' ''get'' \<noteq> generateConstantName ''/shop2'' ''get''"
    by blast
  from h s 1 2 3 4 show ?thesis by blast
qed

section \<open>Validated types: the response of an operation\<close>

text \<open>
  C1 fails on the code. The claim's chain takes the named \<open>*Response\<close> schema of a 2xx or
  \<open>default\<close> response, and gives \<open>void\<close> for an operation whose success response is \<open>204\<close>
  without content. In the pattern of the first step the text between the status key and
  \<open>application/json\<close> is \<open>[\s\S]*?\<close>, which is not held inside the block of that status:
  for an operation with the responses \<open>204\<close> (no content) and \<open>400\<close> (the schema
  \<open>ErrorResponse\<close>) the match starts at the key \<open>204:\<close> and runs on into the \<open>400\<close>
  response, so the operation gets \<open>_Response = components['schemas']['ErrorResponse']\<close>,
  although the \<open>204\<close> pattern of step (d) matches the same text. The same operation with
  the \<open>204\<close> response only gets \<open>_Response = void\<close> and no \<open>_RO\<close>, as the claim says.
\<close>

theorem C1_response_of_later_status:
  "processSchema_response ''deleteUser''
     ''responses: { 204: { content?: never; }; 400: { content: { 'application/json': components['schemas']['ErrorResponse']; }; }; };''
     (''ErrorResponse: {'' @ [LF] @ ''            code: number;'' @ [LF] @ ''        };'')
     = ([''export type deleteUser_Response = components['schemas']['ErrorResponse'' @ [SQ] @ ''];''],
        False)
   \<and> rtest noContentRegex
       ''responses: { 204: { content?: never; }; 400: { content: { 'application/json': components['schemas']['ErrorResponse']; }; }; };''
   \<and> processSchema_response ''deleteUser''
       ''responses: { 204: { content?: never; }; };''
       (''ErrorResponse: {'' @ [LF] @ ''            code: number;'' @ [LF] @ ''        };'')
     = ([''export type deleteUser_Response = void;''], False)"
  by code_simp

end
